theory Spec2Isabelle
  imports Main "HOL-Library.Word"
begin

unbundle bit_operations_syntax

section \<open>The Mastermind client (src/task1/mastermind/client.c)\<close>

text \<open>
  The client plays an 8 color / 5 slot game against a server.  A guess is a
  \<open>uint16_t\<close>: slot \<open>j\<close> occupies bits \<open>3j .. 3j+2\<close>, bit 15 is the
  parity bit.  All \<open>uint8_t\<close> and \<open>uint16_t\<close> values of the source are
  machine words here, so that every wrap-around of the source is kept.
\<close>

type_synonym u8 = "8 word"
type_synonym u16 = "16 word"

text \<open>\<open>typedef enum { beige, ..., white } color_t\<close>: the source does arithmetic
  on colors and indexes arrays with them, so a color is its number.\<close>

type_synonym color_t = nat

definition beige :: color_t where "beige = 0"
definition darkblue :: color_t where "darkblue = 1"
definition green :: color_t where "green = 2"
definition orange :: color_t where "orange = 3"
definition red_c :: color_t where "red_c = 4"
definition black :: color_t where "black = 5"
definition violet :: color_t where "violet = 6"
definition white_c :: color_t where "white_c = 7"

definition SLOTS :: nat where "SLOTS = 5"
definition COLOR_WIDTH :: nat where "COLOR_WIDTH = 3"
definition COLORS :: nat where "COLORS = 8"

text \<open>\<open>ALL_SLOTS = (uint8_t) ~(0x7 << SLOTS)\<close>\<close>

definition ALL_SLOTS :: u8 where
  "ALL_SLOTS = NOT (push_bit SLOTS 7)"

subsection \<open>Reference notions used in the statements\<close>

text \<open>The number of set bits among the low \<open>n\<close> bits of a word.\<close>

definition popcount_upto :: "nat \<Rightarrow> 'a::len word \<Rightarrow> nat" where
  "popcount_upto n w = length (filter (bit w) [0..<n])"

text \<open>The color in slot \<open>j\<close> of a packed code.\<close>

definition slot :: "u16 \<Rightarrow> nat \<Rightarrow> u16" where
  "slot c j = drop_bit (3 * j) c AND 7"

text \<open>Exact-position matches of two codes: the slots where they agree.\<close>

definition exact_matches :: "u16 \<Rightarrow> u16 \<Rightarrow> nat" where
  "exact_matches c1 c2 = length (filter (\<lambda>j. slot c1 j = slot c2 j) [0..<5])"

subsection \<open>Parity and the request buffer\<close>

text \<open>The loop of \<open>compute_parity\<close>: \<open>parity ^= (p & 0x1); p >>= 1\<close>, run
  \<open>SLOTS * COLOR_WIDTH\<close> times.\<close>

fun parity_loop :: "nat \<Rightarrow> u16 \<Rightarrow> u8 \<Rightarrow> u8" where
  "parity_loop 0 p parity = parity"
| "parity_loop (Suc n) p parity = parity_loop n (drop_bit 1 p) (parity XOR ucast (p AND 1))"

definition compute_parity :: "u16 \<Rightarrow> u16" where
  "compute_parity req =
     (let p = req;
          req1 = req AND NOT (push_bit 15 1);
          parity = parity_loop (SLOTS * COLOR_WIDTH) p 0
      in req1 OR push_bit 15 (ucast parity))"

text \<open>\<open>generate_request\<close> updates the request in place and fills the two
  bytes of the buffer; it returns both.\<close>

definition generate_request :: "u16 \<Rightarrow> u8 list \<times> u16" where
  "generate_request req =
     (let req1 = compute_parity req
      in ([ucast (req1 AND NOT (push_bit 8 255)), ucast (drop_bit 8 req1)], req1))"

subsection \<open>Bit counting and the enumeration of combinations\<close>

fun set_bits_loop :: "nat \<Rightarrow> u8 \<Rightarrow> u8 \<Rightarrow> u8" where
  "set_bits_loop 0 num bits_set = bits_set"
| "set_bits_loop (Suc n) num bits_set =
     set_bits_loop n (drop_bit 1 num) (if num AND 1 \<noteq> 0 then bits_set + 1 else bits_set)"

definition calculate_set_bits :: "u8 \<Rightarrow> nat \<Rightarrow> u8" where
  "calculate_set_bits num len = set_bits_loop len num 0"

text \<open>The \<open>while\<close> loop of \<open>compute_combination\<close>.  With a mask of 255 the
  exit test \<open>last_combination > mask\<close> never fires and the loop can run for
  ever, so the loop is a partial function: \<open>None\<close> is "does not return".\<close>

partial_function (option) compute_combination_loop :: "u8 \<Rightarrow> u8 \<Rightarrow> u8 \<Rightarrow> u8 option" where
  "compute_combination_loop last_combination msk cnt =
     (if (last_combination AND msk) \<noteq> last_combination
         \<or> calculate_set_bits last_combination SLOTS \<noteq> cnt
      then (let lc = last_combination + 1
            in if lc > msk then Some 0 else compute_combination_loop lc msk cnt)
      else Some last_combination)"

declare compute_combination_loop.simps [code]

definition compute_combination :: "u8 \<Rightarrow> u8 \<Rightarrow> u8 \<Rightarrow> u8 option" where
  "compute_combination last_combination msk cnt =
     compute_combination_loop (last_combination + 1) msk cnt"

text \<open>The start value the tree builder passes to the first call:
  \<open>(((uint8_t) ~0) >> (COLORS - needed)) - 1\<close>.\<close>

definition first_start :: "u8 \<Rightarrow> u8" where
  "first_start needed = drop_bit (COLORS - unat needed) (NOT 0) - 1"

subsection \<open>Comparing codes and selecting the next guess\<close>

record perm_list_t =
  combination :: u16
  red :: u8

fun compare_loop :: "nat \<Rightarrow> u16 \<Rightarrow> u16 \<Rightarrow> u8 \<Rightarrow> u8" where
  "compare_loop 0 cmb1 cmb2 eq = eq"
| "compare_loop (Suc n) cmb1 cmb2 eq =
     compare_loop n (drop_bit 3 cmb1) (drop_bit 3 cmb2)
       (if cmb1 AND 7 = cmb2 AND 7 then eq + 1 else eq)"

definition compare_perm_equal_pos :: "u16 \<Rightarrow> u16 \<Rightarrow> u8" where
  "compare_perm_equal_pos cmb1 cmb2 = compare_loop SLOTS cmb1 cmb2 0"

text \<open>The inner loop of \<open>find_best_perm\<close> over the processed list: the flag
  \<open>matching\<close> when the loop is left.\<close>

fun matching_loop :: "u16 \<Rightarrow> perm_list_t list \<Rightarrow> bool" where
  "matching_loop pc [] = True"
| "matching_loop pc (q # qs) =
     (if compare_perm_equal_pos pc (combination q) \<noteq> red q then False
      else matching_loop pc qs)"

text \<open>The outer loop over the candidates.  The node returned by the source is
  given by its position in the candidate list; \<open>None\<close> is the null pointer.\<close>

fun find_best_perm_loop :: "perm_list_t list \<Rightarrow> perm_list_t list \<Rightarrow> nat \<Rightarrow> nat option" where
  "find_best_perm_loop [] procd n = None"
| "find_best_perm_loop (p # ps) procd n =
     (if matching_loop (combination p) procd then Some n
      else find_best_perm_loop ps procd (Suc n))"


subsection \<open>The game state\<close>

text \<open>\<open>result_t\<close>: the fields \<open>red\<close>, \<open>white\<close>, \<open>total\<close> carry the prefix
  \<open>res_\<close> here, since \<open>red\<close> is already the field of \<open>perm_list_t\<close>.\<close>

record result_t =
  res_red :: u8
  res_white :: u8
  res_total :: u8
  real_hits :: u8

text \<open>\<open>combination_list_t\<close>: a node of the combination tree with its two
  pointers, \<open>first_child\<close> and \<open>next\<close> (here \<open>next_sibling\<close>); a null pointer
  is \<open>None\<close>.  The fields \<open>mask\<close> and \<open>combination\<close> are \<open>node_mask\<close> and
  \<open>node_combination\<close>.\<close>

datatype combination_list_t =
  Node (color: color_t) (next_color: color_t) (node_mask: u8) (node_combination: u8)
       (first_child: "combination_list_t option") (next_sibling: "combination_list_t option")

text \<open>\<open>gameinfo_t\<close>.  The two linked lists are lists (\<open>last_perm\<close> and
  \<open>processed_last\<close> are their last nodes).  The socket \<open>connfd\<close> is
  represented by \<open>wire\<close>, the traffic that went over it so far: for every
  round trip the request bytes written and the byte that \<open>response_buf\<close>
  held after the read.\<close>

record gameinfo_t =
  guess :: u16
  request_buf :: "u8 list"
  response_buf :: u8
  error :: u8
  round :: u8
  partitions :: "color_t list list"
  result :: "result_t list"
  possible :: "u8 list"
  comb :: "combination_list_t option"
  first_perm :: "perm_list_t list"
  processed :: "perm_list_t list"
  wire :: "(u8 list \<times> u8) list"

text \<open>The server at the other end of the socket: given the traffic so far and
  the request bytes, the response byte that \<open>read\<close> delivers; \<open>None\<close> when
  writing or reading fails, so that no byte arrives in \<open>response_buf\<close>.\<close>

type_synonym server = "(u8 list \<times> u8) list \<Rightarrow> u8 list \<Rightarrow> u8 option"

text \<open>The ways in which a call does not return to its caller: \<open>bail_out\<close>
  (the process exits), a null pointer is dereferenced, or a loop runs for
  ever.\<close>

datatype fault = Bail_out | Null_deref | No_return

definition RED :: "u8 \<Rightarrow> u8" where "RED resp = resp AND 7"
definition WHITE :: "u8 \<Rightarrow> u8" where "WHITE resp = drop_bit 3 (resp AND push_bit 3 7)"
definition TOTAL :: "u8 \<Rightarrow> u8" where "TOTAL resp = RED resp + WHITE resp"
definition RESPONSE_ERROR :: "u8 \<Rightarrow> u8" where "RESPONSE_ERROR resp = drop_bit 6 resp"
definition GAME_ERROR_BIT :: u8 where "GAME_ERROR_BIT = push_bit 7 1"

subsection \<open>Building and committing a guess\<close>

definition add_color :: "u16 \<Rightarrow> color_t \<Rightarrow> nat \<Rightarrow> u16 option" where
  "add_color req c position =
     (if position \<ge> SLOTS then None
      else let pos = position * COLOR_WIDTH;
               req1 = req AND NOT (push_bit pos 1 OR push_bit (pos + 1) 1 OR push_bit (pos + 2) 1)
           in Some (req1 OR push_bit pos (of_nat c)))"

function init_request_loop :: "u16 \<Rightarrow> nat \<Rightarrow> nat \<Rightarrow> color_t list \<Rightarrow> u16 option" where
  "init_request_loop req i num colors =
     (if i < num
      then (case add_color req (colors ! i) i of
              None \<Rightarrow> None
            | Some req1 \<Rightarrow> init_request_loop req1 (i + 1) num colors)
      else Some req)"
  by pat_completeness auto
termination
  by (relation "measure (\<lambda>(req, i, num, colors). num - i)") auto

definition init_request :: "nat \<Rightarrow> color_t list \<Rightarrow> u16 option" where
  "init_request num colors = init_request_loop 0 0 num colors"

text \<open>\<open>commit_guess\<close>.  The result structure behind the pointer \<open>result\<close>
  is passed in and returned; the caller stores it where the pointer points.
  The value is the fault, or the return value with the new state and
  result.

  \<open>write_to_server\<close> and \<open>read_from_server\<close> return a \<open>size_t\<close>, so their
  \<open>-1\<close> is a large positive number and the two tests \<open>< 0\<close> in
  \<open>commit_guess\<close> are never true: after a failed round trip the function
  goes on with the byte that \<open>response_buf\<close> held before.  The only
  \<open>bail_out\<close> left is the one after \<open>init_request\<close>.  What the function
  does once the byte is in \<open>response_buf\<close> is \<open>commit_response\<close>; the
  traffic is logged there.\<close>

definition commit_response :: "gameinfo_t \<Rightarrow> result_t \<Rightarrow> u8 \<Rightarrow> u8 \<times> gameinfo_t \<times> result_t" where
  "commit_response info2 res resp =
     (let info3 = info2\<lparr>response_buf := resp,
                         wire := wire info2 @ [(request_buf info2, resp)],
                         error := RESPONSE_ERROR resp\<rparr>;
          res1 = res\<lparr>res_red := RED resp, res_white := WHITE resp,
                      res_total := TOTAL resp\<rparr>;
          pl = \<lparr>combination = guess info3, red = res_red res1\<rparr>;
          info4 = info3\<lparr>processed := processed info3 @ [pl]\<rparr>
      in if error info4 > 0
         then (error info4 OR GAME_ERROR_BIT, info4, res1)
         else if res_red res1 = of_nat SLOTS
         then (round info4, info4, res1)
         else (0, info4, res1))"

definition commit_guess ::
  "server \<Rightarrow> gameinfo_t \<Rightarrow> color_t list option \<Rightarrow> result_t \<Rightarrow> fault + (u8 \<times> gameinfo_t \<times> result_t)" where
  "commit_guess srv info partn res =
     (let info1 = info\<lparr>round := round info + 1\<rparr>
      in case (case partn of
                 None \<Rightarrow> Some (guess info1)
               | Some p \<Rightarrow> init_request SLOTS p) of
           None \<Rightarrow> Inl Bail_out
         | Some g \<Rightarrow>
             (let (buf, g1) = generate_request g;
                  info2 = info1\<lparr>guess := g1, request_buf := buf\<rparr>
              in case srv (wire info2) (request_buf info2) of
                   None \<Rightarrow> Inr (commit_response info2 res (response_buf info2))
                 | Some r \<Rightarrow> Inr (commit_response info2 res r)))"

definition find_best_perm :: "gameinfo_t \<Rightarrow> nat option" where
  "find_best_perm info = find_best_perm_loop (first_perm info) (processed info) 0"

subsection \<open>Testing the two partitions\<close>

text \<open>The inner loop of \<open>analyse_partitions\<close> that zeroes four entries of
  \<open>possible\<close> from \<open>clear_partition * 4\<close> on, and \<open>memset\<close> with value 0.\<close>

definition memset_zero :: "u8 list \<Rightarrow> nat \<Rightarrow> nat \<Rightarrow> u8 list" where
  "memset_zero xs start n = fold (\<lambda>k ys. ys[k := 0]) [start..<start + n] xs"

text \<open>The loop of \<open>analyse_partitions\<close> over \<open>i\<close>, with \<open>j\<close> and \<open>skip\<close>.
  The local \<open>clear_partition\<close> is assigned in every branch that sets
  \<open>skip\<close>, and read only then.\<close>

function analyse_partitions_loop ::
  "server \<Rightarrow> nat \<Rightarrow> nat \<Rightarrow> bool \<Rightarrow> gameinfo_t \<Rightarrow> fault + (u8 \<times> gameinfo_t)" where
  "analyse_partitions_loop srv i j skip info =
     (if i < 2 \<and> \<not> skip
      then (case commit_guess srv info (Some (partitions info ! i)) (result info ! i) of
              Inl f \<Rightarrow> Inl f
            | Inr (ret, info1, res) \<Rightarrow>
                (let info2 = info1\<lparr>result := (result info1)[i := res]\<rparr>
                 in if ret \<noteq> 0 then Inr (ret, info2)
                    else
                      (let (skip1, clear1, info3) =
                             (if res_total (result info2 ! i) = of_nat SLOTS
                              then (True, j,
                                    info2\<lparr>result := (result info2)
                                       [j := (result info2 ! j)\<lparr>res_red := 0, res_white := 0, res_total := 0\<rparr>]\<rparr>)
                              else (skip, 0, info2));
                           (skip2, clear2, info4) =
                             (if res_total (result info3 ! i) = 0
                              then (True, i,
                                    info3\<lparr>result := (result info3)
                                       [j := (result info3 ! j)\<lparr>res_red := 1, res_white := 0,
                                                               res_total := of_nat SLOTS\<rparr>]\<rparr>)
                              else (skip1, clear1, info3));
                           info5 = (if skip2
                                    then info4\<lparr>possible := memset_zero (possible info4) (clear2 * 4) 4\<rparr>
                                    else info4)
                       in analyse_partitions_loop srv (i + 1) ((i + 2) mod 2) skip2 info5)))
      else Inr (0, info))"
  by pat_completeness auto
termination
  by (relation "measure (\<lambda>(srv, i, j, skip, info). 2 - i)") auto

definition analyse_partitions :: "server \<Rightarrow> gameinfo_t \<Rightarrow> fault + (u8 \<times> gameinfo_t)" where
  "analyse_partitions srv info = analyse_partitions_loop srv 0 1 False info"

declare init_request_loop.simps [simp del] analyse_partitions_loop.simps [simp del]

subsection \<open>The loops count bits; the enumeration returns\<close>

lemma upt_Suc_shift: "[0..<Suc n] = 0 # map Suc [0..<n]"
  by (simp add: upt_conv_Cons map_Suc_upt del: upt_Suc)

lemma popcount_upto_Suc:
  "popcount_upto (Suc n) w = (if bit w 0 then 1 else 0) + popcount_upto n (drop_bit 1 w)"
proof -
  have "filter (bit w) (map Suc [0..<n]) = map Suc (filter (bit (drop_bit 1 w)) [0..<n])"
    by (simp add: filter_map comp_def bit_drop_bit_eq)
  then show ?thesis
    unfolding popcount_upto_def upt_Suc_shift by simp
qed

lemma popcount_upto_0: "popcount_upto 0 w = 0"
  by (simp add: popcount_upto_def)

lemma ucast_and_1: "(ucast (p AND 1 :: u16) :: u8) = (if bit p 0 then 1 else 0)"
  by (simp add: and_one_eq bit_0 mod_2_eq_odd)

lemma parity_loop_eq:
  "parity_loop n p acc = acc XOR (if odd (popcount_upto n p) then 1 else 0)"
proof (induction n arbitrary: p acc)
  case 0
  show ?case by (simp add: popcount_upto_0)
next
  case (Suc n)
  show ?case
    by (simp add: Suc.IH popcount_upto_Suc ucast_and_1 xor.assoc)
qed

lemma and_1_neq_0: "((num :: u8) AND 1 \<noteq> 0) = bit num 0"
  by (simp add: and_one_eq bit_0 mod_2_eq_odd)

lemma set_bits_loop_eq:
  "set_bits_loop n num acc = acc + of_nat (popcount_upto n num)"
proof (induction n arbitrary: num acc)
  case 0
  show ?case by (simp add: popcount_upto_0)
next
  case (Suc n)
  show ?case
    by (simp add: Suc.IH popcount_upto_Suc and_1_neq_0)
qed

lemma calculate_set_bits_eq: "calculate_set_bits num n = of_nat (popcount_upto n num)"
  by (simp add: calculate_set_bits_def set_bits_loop_eq)

lemma popcount_upto_le: "popcount_upto n w \<le> n"
  unfolding popcount_upto_def by (metis length_filter_le length_upt diff_zero)

definition good :: "u8 \<Rightarrow> u8 \<Rightarrow> u8 \<Rightarrow> bool" where
  "good msk cnt v \<longleftrightarrow> v AND msk = v \<and> calculate_set_bits v SLOTS = cnt"

lemma good_le: "good msk cnt v \<Longrightarrow> v \<le> msk"
  unfolding good_def by (metis word_and_le1)

lemma find_upt_step:
  "a < b \<Longrightarrow> \<not> P (f a) \<Longrightarrow> List.find P (map f [a..<b]) = List.find P (map f [Suc a..<b])"
  by (simp add: upt_conv_Cons)

lemma find_upt_hit:
  "a < b \<Longrightarrow> P (f a) \<Longrightarrow> List.find P (map f [a..<b]) = Some (f a)"
  by (simp add: upt_conv_Cons)

lemma unat_plus_1: "unat (lc::u8) \<le> 254 \<Longrightarrow> unat (lc + 1) = unat lc + 1"
  by (simp add: unat_word_ariths)

lemma loop_no_wrap:
  assumes m: "unat msk \<le> 254"
  shows "unat lc \<le> 254 \<Longrightarrow>
     compute_combination_loop lc msk cnt =
       Some (case List.find (good msk cnt) (map of_nat [unat lc..<Suc (unat msk)]) of
               None \<Rightarrow> 0 | Some v \<Rightarrow> v)"
proof (induction "255 - unat lc" arbitrary: lc rule: less_induct)
  case less
  show ?case
  proof (cases "good msk cnt lc")
    case True
    then have "lc \<le> msk" by (rule good_le)
    then have "unat lc < Suc (unat msk)" by (simp add: word_le_nat_alt)
    then have "List.find (good msk cnt) (map of_nat [unat lc..<Suc (unat msk)]) = Some (of_nat (unat lc))"
      using True by (intro find_upt_hit) simp_all
    then have "List.find (good msk cnt) (map of_nat [unat lc..<Suc (unat msk)]) = Some lc"
      by (simp del: upt_Suc)
    moreover have "compute_combination_loop lc msk cnt = Some lc"
      using True by (subst compute_combination_loop.simps) (simp add: good_def)
    ultimately show ?thesis by (simp del: upt_Suc)
  next
    case False
    have u: "unat (lc + 1) = unat lc + 1"
      using less.prems by (rule unat_plus_1)
    show ?thesis
    proof (cases "lc + 1 > msk")
      case True
      then have "unat msk < unat lc + 1"
        using u by (simp add: word_less_nat_alt)
      then have "[unat lc..<Suc (unat msk)] = [] \<or> [unat lc..<Suc (unat msk)] = [unat lc]"
        by (cases "unat lc \<le> unat msk") (simp_all add: upt_conv_Cons del: upt_Suc)
      then have "List.find (good msk cnt) (map of_nat [unat lc..<Suc (unat msk)]) = None"
        using False by (auto simp del: upt_Suc)
      moreover have "compute_combination_loop lc msk cnt = Some 0"
        using False True by (subst compute_combination_loop.simps) (auto simp add: good_def Let_def)
      ultimately show ?thesis by (simp del: upt_Suc)
    next
      case le: False
      then have le': "unat lc + 1 \<le> unat msk"
        using u by (simp add: word_less_nat_alt not_less)
      have step: "compute_combination_loop lc msk cnt = compute_combination_loop (lc + 1) msk cnt"
        using False le by (subst compute_combination_loop.simps) (auto simp add: good_def Let_def)
      have "unat (lc + 1) \<le> 254" using le' m u by simp
      moreover have "255 - unat (lc + 1) < 255 - unat lc" using u less.prems by simp
      ultimately have "compute_combination_loop (lc + 1) msk cnt =
          Some (case List.find (good msk cnt) (map of_nat [unat (lc + 1)..<Suc (unat msk)]) of
               None \<Rightarrow> 0 | Some v \<Rightarrow> v)"
        using less.hyps by blast
      moreover have "List.find (good msk cnt) (map of_nat [unat lc..<Suc (unat msk)])
          = List.find (good msk cnt) (map of_nat [Suc (unat lc)..<Suc (unat msk)])"
        using False le' by (intro find_upt_step) simp_all
      ultimately show ?thesis
        using step u by (simp del: upt_Suc)
    qed
  qed
qed

lemma find_range_Some:
  assumes "List.find P (map of_nat [a..<b]) = Some (v::u8)" and "b \<le> 256"
  shows "P v \<and> a \<le> unat v \<and> unat v < b"
proof -
  from assms(1) obtain i where i: "i < length (map (of_nat :: nat \<Rightarrow> u8) [a..<b])"
    and p: "P (map of_nat [a..<b] ! i)" and v: "v = map of_nat [a..<b] ! i"
    unfolding find_Some_iff by blast
  from i have ib: "a + i < b" by simp
  have lt: "a + i < 256" using ib assms(2) by simp
  have "v = of_nat (a + i)" using v ib by (simp del: of_nat_add)
  then have "unat v = (a + i) mod 256"
    by (simp only: unat_of_nat) simp
  with lt have "unat v = a + i"
    by simp
  with p v ib show ?thesis by simp
qed

lemma compute_combination_no_wrap:
  assumes "unat msk \<le> 254" and "unat s \<le> 253"
  shows "compute_combination s msk cnt =
       Some (case List.find (good msk cnt) (map of_nat [Suc (unat s)..<Suc (unat msk)]) of
               None \<Rightarrow> 0 | Some v \<Rightarrow> v)"
proof -
  have "unat (s + 1) = Suc (unat s)"
    using assms(2) by (simp add: unat_word_ariths)
  then show ?thesis
    unfolding compute_combination_def
    using loop_no_wrap [OF assms(1), of "s + 1" cnt] assms(2) by simp
qed

lemma w256: "(256::u8) = 0"
  by (simp add: word_unat_eq_iff)

lemma not_good_255:
  assumes a: "unat msk \<le> 254"
  shows "\<not> good msk cnt 255"
proof
  assume "good msk cnt 255"
  then have "(255::u8) \<le> msk" by (rule good_le)
  then have "255 \<le> unat msk" by (simp add: word_le_nat_alt)
  with a show False by simp
qed

lemma compute_combination_wrap:
  assumes "unat msk \<le> 254" and "254 \<le> unat s"
  shows "compute_combination s msk cnt =
       Some (case List.find (good msk cnt) (map of_nat [0..<Suc (unat msk)]) of
               None \<Rightarrow> 0 | Some v \<Rightarrow> v)"
proof -
  have z: "compute_combination_loop 0 msk cnt =
       Some (case List.find (good msk cnt) (map of_nat [0..<Suc (unat msk)]) of
               None \<Rightarrow> 0 | Some v \<Rightarrow> v)"
    using loop_no_wrap [OF assms(1), of 0 cnt] by simp
  have "unat s = 254 \<or> unat s = 255"
    using assms(2) unsigned_less [of s, where ?'a = nat] by auto
  then have "s = 254 \<or> s = 255"
    by (auto simp add: word_unat_eq_iff)
  then show ?thesis
  proof
    assume "s = 254"
    then have "compute_combination s msk cnt = compute_combination_loop 255 msk cnt"
      by (simp add: compute_combination_def)
    also have "\<dots> = compute_combination_loop 0 msk cnt"
      using not_good_255 [OF assms(1), of cnt]
      by (subst compute_combination_loop.simps) (auto simp add: good_def Let_def w256)
    finally show ?thesis using z by simp
  next
    assume "s = 255"
    then have "compute_combination s msk cnt = compute_combination_loop 0 msk cnt"
      by (simp add: compute_combination_def w256)
    then show ?thesis using z by simp
  qed
qed

lemma compute_combination_result:
  assumes m: "unat msk \<le> 254" and c: "compute_combination s msk cnt = Some v" and nz: "v \<noteq> 0"
  shows "good msk cnt v \<and> (unat s \<le> 253 \<longrightarrow> unat s < unat v)"
proof (cases "unat s \<le> 253")
  case True
  from compute_combination_no_wrap [OF m True, of cnt] c nz
  have "List.find (good msk cnt) (map of_nat [Suc (unat s)..<Suc (unat msk)]) = Some v"
    by (auto split: option.splits simp del: upt_Suc)
  from find_range_Some [OF this] m show ?thesis by simp
next
  case False
  then have "254 \<le> unat s" by simp
  from compute_combination_wrap [OF m this, of cnt] c nz
  have "List.find (good msk cnt) (map of_nat [0..<Suc (unat msk)]) = Some v"
    by (auto split: option.splits simp del: upt_Suc)
  from find_range_Some [OF this] m False show ?thesis by simp
qed

lemma compute_combination_total:
  "unat msk \<le> 254 \<Longrightarrow> \<exists>v. compute_combination s msk cnt = Some v"
  using compute_combination_no_wrap [of msk s cnt] compute_combination_wrap [of msk s cnt]
  by (cases "unat s \<le> 253") auto

subsection \<open>Building the combination tree\<close>

function search_color :: "u8 list \<Rightarrow> nat \<Rightarrow> nat option" where
  "search_color poss i =
     (if i < COLORS then (if poss ! i \<noteq> 0 then Some i else search_color poss (i + 1))
      else None)"
  by pat_completeness auto
termination
  by (relation "measure (\<lambda>(poss, i). COLORS - i)") auto

declare search_color.simps [simp del]

lemma search_color_Some: "search_color poss n = Some i \<Longrightarrow> n \<le> i \<and> i < COLORS \<and> poss ! i \<noteq> 0"
proof (induction poss n rule: search_color.induct)
  case (1 poss n)
  show ?case
  proof (cases "n < COLORS \<and> poss ! n = 0")
    case True
    then have "search_color poss (n + 1) = Some i"
      using "1.prems" by (subst (asm) search_color.simps) simp
    with True "1.IH" show ?thesis by fastforce
  next
    case False
    then show ?thesis
      using "1.prems" by (subst (asm) search_color.simps) (auto split: if_splits)
  qed
qed

definition drop_empty_child :: "combination_list_t option \<Rightarrow> combination_list_t option" where
  "drop_empty_child ch =
     (case ch of None \<Rightarrow> None
      | Some c \<Rightarrow> if node_combination c = 0 then None else Some c)"

definition set_next :: "combination_list_t \<Rightarrow> combination_list_t option \<Rightarrow> combination_list_t" where
  "set_next n nx = Node (color n) (next_color n) (node_mask n) (node_combination n) (first_child n) nx"

definition sib_measure :: "u8 \<Rightarrow> nat" where
  "sib_measure c = (if 254 \<le> unat c then 33 else 32 - unat c)"

lemma and_31_le: "unat ((x AND NOT (push_bit SLOTS 7)) AND (p::u8)) \<le> 31"
proof -
  have "(x AND NOT (push_bit SLOTS 7)) AND p \<le> x AND NOT (push_bit SLOTS 7)"
    by (rule word_and_le2)
  also have "\<dots> \<le> NOT (push_bit SLOTS 7)"
    by (rule word_and_le1)
  finally have "unat ((x AND NOT (push_bit SLOTS 7)) AND p) \<le> unat (NOT (push_bit SLOTS 7) :: u8)"
    by (simp add: word_le_nat_alt)
  then show ?thesis by (simp add: SLOTS_def)
qed

lemma sib_measure_decreases:
  assumes "compute_combination c ((x AND NOT (push_bit SLOTS 7)) AND p) n = Some c1" and "c1 \<noteq> 0"
  shows "sib_measure c1 < sib_measure c"
proof -
  let ?m = "(x AND NOT (push_bit SLOTS 7)) AND p"
  have m: "unat ?m \<le> 254" using and_31_le [of x p] by simp
  from compute_combination_result [OF m assms]
  have g: "good ?m n c1" and lt: "unat c \<le> 253 \<longrightarrow> unat c < unat c1" by simp_all
  from g have "c1 \<le> ?m" by (rule good_le)
  then have "unat c1 \<le> 31" using and_31_le [of x p] by (simp add: word_le_nat_alt)
  then show ?thesis using lt by (auto simp add: sib_measure_def)
qed

function build_combination_list ::
    "u8 list \<Rightarrow> bool \<Rightarrow> color_t \<Rightarrow> u8 \<Rightarrow> fault + combination_list_t option"
  and build_siblings ::
    "u8 list \<Rightarrow> color_t \<Rightarrow> u8 \<Rightarrow> u8 \<Rightarrow> nat \<Rightarrow> combination_list_t \<Rightarrow> fault + combination_list_t option"
where
  "build_combination_list poss is_root parent_next parent_mask =
     (case search_color poss parent_next of
        None \<Rightarrow> Inr (Some (Node 0 0 (if is_root then ALL_SLOTS else 0) 0 None None))
      | Some i \<Rightarrow>
          (let p_mask = parent_mask;
               msk = (poss ! i AND NOT (push_bit SLOTS 7)) AND p_mask;
               needed = drop_bit SLOTS (poss ! i)
           in if msk = 0
              then Inr (if is_root then Some (Node i (i + 1) ALL_SLOTS 0 None None) else None)
              else case compute_combination (first_start needed) msk needed of
                     None \<Rightarrow> Inl No_return
                   | Some c \<Rightarrow>
                       if c = 0
                       then Inr (if is_root then Some (Node i (i + 1) ALL_SLOTS 0 None None) else None)
                       else
                         (let self_mask = (p_mask AND NOT c) AND NOT (push_bit SLOTS 7)
                          in case (if i < COLORS - 1 \<and> self_mask \<noteq> 0
                                   then build_combination_list poss False (i + 1) self_mask
                                   else Inr None) of
                               Inl f \<Rightarrow> Inl f
                             | Inr ch \<Rightarrow>
                                 build_siblings poss i p_mask c 1
                                   (Node i (i + 1) self_mask c (drop_empty_child ch) None))))"
| "build_siblings poss i p_mask c entropy self =
     (let msk = (poss ! i AND NOT (push_bit SLOTS 7)) AND p_mask;
          needed = drop_bit SLOTS (poss ! i)
      in case compute_combination c msk needed of
           None \<Rightarrow> Inl No_return
         | Some c1 \<Rightarrow>
             if c1 = 0 then Inr (Some self)
             else
               (let sibling_mask = (p_mask AND NOT c1) AND NOT (push_bit 5 7)
                in case (if i < COLORS - 1 \<and> sibling_mask \<noteq> 0
                         then build_combination_list poss False (i + 1) sibling_mask
                         else Inr None) of
                     Inl f \<Rightarrow> Inl f
                   | Inr ch \<Rightarrow>
                       (let sibling = Node i (i + 1) sibling_mask c1 (drop_empty_child ch) None
                        in if entropy mod 2 \<noteq> 0
                           then build_siblings poss i p_mask c1 (entropy + 1)
                                  (set_next sibling (Some self))
                           else build_siblings poss i p_mask c1 (entropy + 1)
                                  (set_next self (Some (set_next sibling (next_sibling self)))))))"
  by pat_completeness auto
termination
  apply (relation "measures
    [\<lambda>x. case x of Inl (poss, r, nc, pm) \<Rightarrow> COLORS - nc
                 | Inr (poss, i, pm, c, e, self) \<Rightarrow> COLORS - i,
     \<lambda>x. case x of Inl (poss, r, nc, pm) \<Rightarrow> 40
                 | Inr (poss, i, pm, c, e, self) \<Rightarrow> sib_measure c]")
  subgoal by simp
  subgoal by (drule search_color_Some) (auto simp add: COLORS_def)
  subgoal by (drule search_color_Some) (auto simp add: COLORS_def sib_measure_def)
  subgoal by (auto simp add: COLORS_def)
  subgoal by (auto simp add: sib_measure_decreases)
  subgoal by (auto simp add: sib_measure_decreases)
  done

declare build_combination_list.simps [simp del] build_siblings.simps [simp del]

subsection \<open>Generating the candidate list\<close>

text \<open>The loop of \<open>process_combinations\<close> that writes the node's color into
  the slots of its combination; the value of \<open>add_color\<close> is not looked at.\<close>

definition set_colors :: "color_t \<Rightarrow> u8 \<Rightarrow> u16 \<Rightarrow> u16" where
  "set_colors c cmb g =
     fst (fold (\<lambda>j (g1, cmb1).
                  ((if cmb1 AND 1 \<noteq> 0
                    then (case add_color g1 c j of Some g2 \<Rightarrow> g2 | None \<Rightarrow> g1)
                    else g1),
                   drop_bit 1 cmb1))
               [0..<SLOTS] (g, cmb))"

fun process_combinations :: "gameinfo_t \<Rightarrow> combination_list_t \<Rightarrow> u8 \<Rightarrow> gameinfo_t" where
  "process_combinations info (Node col nc m cmb fc nx) counter =
     (let g = guess info;
          i = calculate_set_bits cmb SLOTS;
          info1 = info\<lparr>guess := set_colors col cmb (guess info)\<rparr>;
          info2 = (case fc of
                     Some ch \<Rightarrow> process_combinations info1 ch (counter + i)
                   | None \<Rightarrow>
                       if unat counter + unat i = SLOTS
                       then info1\<lparr>first_perm := first_perm info1
                                     @ [\<lparr>combination = guess info1, red = 0\<rparr>]\<rparr>
                       else info1)
      in case nx of
           Some sib \<Rightarrow> process_combinations (info2\<lparr>guess := g\<rparr>) sib counter
         | None \<Rightarrow> info2)"


subsection \<open>Testing the candidates\<close>

definition remove_nth :: "nat \<Rightarrow> 'a list \<Rightarrow> 'a list" where
  "remove_nth n xs = take n xs @ drop (Suc n) xs"

lemma commit_guess_first_perm:
  "commit_guess srv info partn res = Inr (ret, info1, res1) \<Longrightarrow> first_perm info1 = first_perm info"
  by (auto simp add: commit_guess_def commit_response_def Let_def split: option.splits prod.splits if_splits)

text \<open>The loop of \<open>analyse_combinations\<close>.  The pointer \<open>curr\<close> (here \<open>cur\<close>) is the
  position of its node in the candidate list; it is null exactly when the
  list has no such position.\<close>

function combinations_loop ::
  "server \<Rightarrow> gameinfo_t \<Rightarrow> nat \<Rightarrow> result_t \<Rightarrow> fault + (u8 \<times> gameinfo_t)" where
  "combinations_loop srv info cur res =
     (if cur \<ge> length (first_perm info) then Inl Null_deref
      else
        (let info1 = info\<lparr>guess := combination (first_perm info ! cur)\<rparr>
         in case commit_guess srv info1 None res of
              Inl f \<Rightarrow> Inl f
            | Inr (ret, info2, res1) \<Rightarrow>
                if ret \<noteq> 0 then Inr (ret, info2)
                else
                  (let info3 = info2\<lparr>first_perm := remove_nth cur (first_perm info2)\<rparr>
                   in case find_best_perm info3 of
                        None \<Rightarrow> Inl Bail_out
                      | Some n \<Rightarrow> combinations_loop srv info3 n res1)))"
  by pat_completeness auto
termination
  apply (relation "measure (\<lambda>(srv, info, cur, res). length (first_perm info))")
  subgoal by simp
  subgoal by (auto dest!: commit_guess_first_perm simp add: remove_nth_def)
  done

declare combinations_loop.simps [simp del]

definition zero_result :: result_t where
  "zero_result = \<lparr>res_red = 0, res_white = 0, res_total = 0, real_hits = 0\<rparr>"

text \<open>\<open>analyse_combinations\<close>: the tree is built from \<open>possible\<close> with a null
  parent, the candidates are generated with the guess cleared, and the
  candidates are tested from the head of the list.\<close>

definition analyse_combinations :: "server \<Rightarrow> gameinfo_t \<Rightarrow> fault + (u8 \<times> gameinfo_t)" where
  "analyse_combinations srv info =
     (let info1 = info\<lparr>guess := 0\<rparr>
      in case build_combination_list (possible info1) True 0 ALL_SLOTS of
           Inl f \<Rightarrow> Inl f
         | Inr None \<Rightarrow> Inl Null_deref
         | Inr (Some lst) \<Rightarrow>
             (let info2 = info1\<lparr>comb := Some lst\<rparr>;
                  info3 = process_combinations info2 lst 0
              in combinations_loop srv info3 0 zero_result))"

subsection \<open>Refining the possible positions\<close>

text \<open>The bodies of the three loops over the slots \<open>j\<close> of partition \<open>i\<close>,
  and the loops.\<close>

definition set_impossible_step :: "nat \<Rightarrow> nat \<Rightarrow> gameinfo_t \<Rightarrow> gameinfo_t" where
  "set_impossible_step i j info =
     (let c = partitions info ! i ! j
      in if possible info ! c \<noteq> 0
         then info\<lparr>possible := (possible info)[c := possible info ! c AND NOT (push_bit j 1)]\<rparr>
         else info)"

definition set_impossible :: "nat \<Rightarrow> gameinfo_t \<Rightarrow> gameinfo_t" where
  "set_impossible i info = fold (set_impossible_step i) [0..<SLOTS] info"

definition clear_slots_step :: "nat \<Rightarrow> nat \<Rightarrow> gameinfo_t \<Rightarrow> gameinfo_t" where
  "clear_slots_step i j info =
     (let c = partitions info ! i ! j
      in info\<lparr>possible := (possible info)[c := possible info ! c AND push_bit SLOTS 7]\<rparr>)"

definition clear_slots :: "nat \<Rightarrow> gameinfo_t \<Rightarrow> gameinfo_t" where
  "clear_slots i info = fold (clear_slots_step i) [0..<SLOTS] info"

definition set_possible_step :: "nat \<Rightarrow> nat \<Rightarrow> gameinfo_t \<Rightarrow> gameinfo_t" where
  "set_possible_step i j info =
     (let c = partitions info ! i ! j
      in if possible info ! c \<noteq> 0
         then info\<lparr>possible := (possible info)[c := possible info ! c OR push_bit j 1]\<rparr>
         else info)"

definition set_possible :: "nat \<Rightarrow> gameinfo_t \<Rightarrow> gameinfo_t" where
  "set_possible i info = fold (set_possible_step i) [0..<SLOTS] info"

text \<open>The body of the loop of \<open>analyse_possible\<close> over the two partitions, and
  the loop.\<close>

definition analyse_possible_step :: "nat \<Rightarrow> gameinfo_t \<Rightarrow> gameinfo_t" where
  "analyse_possible_step i info =
     (if res_red (result info ! i) = 0 then set_impossible i info
      else if res_red (result info ! i) = real_hits (result info ! i)
      then set_possible i (clear_slots i info)
      else info)"

definition analyse_possible :: "gameinfo_t \<Rightarrow> gameinfo_t" where
  "analyse_possible info = fold analyse_possible_step [0..<2] info"

subsection \<open>Counting the colors\<close>

text \<open>The inner loop of \<open>analyse_colors\<close> over the first three colors of
  partition \<open>i\<close>.  It ends the whole function with a return value
  (\<open>Inr (Inl \<dots>)\<close>) or hands on the state, the local result, \<open>total\<close>
  (here \<open>tot\<close>) and \<open>found\<close>.\<close>

function color_loop ::
  "server \<Rightarrow> nat \<Rightarrow> nat \<Rightarrow> nat \<Rightarrow> gameinfo_t \<Rightarrow> result_t \<Rightarrow> u8 \<Rightarrow> u8
     \<Rightarrow> fault + ((u8 \<times> gameinfo_t) + (gameinfo_t \<times> result_t \<times> u8 \<times> u8))" where
  "color_loop srv i j k info res tot found =
     (if k < i * 4 + 3
      then (case commit_guess srv info (Some [k, k, k, k, k]) res of
              Inl f \<Rightarrow> Inl f
            | Inr (ret, info1, res1) \<Rightarrow>
                if ret \<noteq> 0 then Inr (Inl (ret, info1))
                else if res_total res1 = 0
                then color_loop srv i (j + 1) (k + 1)
                       (info1\<lparr>possible := (possible info1)[k := 0]\<rparr>) res1 tot found
                else
                  (let tot1 = tot + res_total res1;
                       info2 = info1\<lparr>result := (result info1)
                                  [i := (result info1 ! i)
                                     \<lparr>real_hits := real_hits (result info1 ! i) + res_total res1\<rparr>]\<rparr>;
                       info3 = info2\<lparr>possible := (possible info2)
                                  [k := possible info2 ! k OR push_bit SLOTS (res_total res1)]\<rparr>;
                       found1 = found + 1
                   in if found1 = res_total (result info3 ! i) \<or> tot1 = of_nat SLOTS
                         \<or> (i = 0 \<and> unat tot1 + unat (res_total (result info3 ! 1)) = SLOTS)
                      then Inr (Inr (info3\<lparr>possible := memset_zero (possible info3) (k + 1) (3 - j)\<rparr>,
                                     res1, tot1, found1))
                      else color_loop srv i (j + 1) (k + 1) info3 res1 tot1 found1))
      else Inr (Inr (info, res, tot, found)))"
  by pat_completeness auto
termination
  by (relation "measure (\<lambda>(srv, i, j, k, info, res, tot, found). i * 4 + 3 - k)") auto

declare color_loop.simps [simp del]

text \<open>The outer loop over the two partitions, with \<open>last_color_missing\<close>.\<close>

function partition_loop ::
  "server \<Rightarrow> nat \<Rightarrow> gameinfo_t \<Rightarrow> result_t \<Rightarrow> u8 \<Rightarrow> u8 list
     \<Rightarrow> fault + ((u8 \<times> gameinfo_t) + (gameinfo_t \<times> result_t \<times> u8 \<times> u8 list))" where
  "partition_loop srv i info res tot last_color_missing =
     (if i < 2
      then (if res_total (result info ! i) > 0
            then (case color_loop srv i 0 (i * 4) info res tot 0 of
                    Inl f \<Rightarrow> Inl f
                  | Inr (Inl r) \<Rightarrow> Inr (Inl r)
                  | Inr (Inr (info1, res1, tot1, found)) \<Rightarrow>
                      partition_loop srv (i + 1) info1 res1 tot1
                        (if found < res_total (result info1 ! i)
                         then last_color_missing[i := 1] else last_color_missing))
            else partition_loop srv (i + 1) info res tot last_color_missing)
      else Inr (Inr (info, res, tot, last_color_missing)))"
  by pat_completeness auto
termination
  by (relation "measure (\<lambda>(srv, i, info, res, tot, lcm). 2 - i)") auto

declare partition_loop.simps [simp del]

text \<open>The end of \<open>analyse_colors\<close> when not all five positions are known:
  the fourth color of partition \<open>i\<close> takes what is missing.\<close>

definition absorb_remainder :: "nat \<Rightarrow> gameinfo_t \<Rightarrow> u8 \<Rightarrow> gameinfo_t" where
  "absorb_remainder i info tot =
     (let info1 = (if of_nat SLOTS - tot = 0
                   then info\<lparr>possible := (possible info)[i * 4 + 3 := 0]\<rparr>
                   else info\<lparr>possible := (possible info)
                          [i * 4 + 3 := possible info ! (i * 4 + 3)
                                         OR push_bit SLOTS (of_nat SLOTS - tot)]\<rparr>)
      in info1\<lparr>result := (result info1)
                [i := (result info1 ! i)
                   \<lparr>real_hits := real_hits (result info1 ! i) + (of_nat SLOTS - tot)\<rparr>]\<rparr>)"

text \<open>The part of \<open>analyse_colors\<close> after the loops.\<close>

definition last_colors ::
  "server \<Rightarrow> gameinfo_t \<Rightarrow> result_t \<Rightarrow> u8 \<Rightarrow> u8 list \<Rightarrow> fault + (u8 \<times> gameinfo_t)" where
  "last_colors srv info res tot last_color_missing =
     (if tot < of_nat SLOTS
      then
        (case (if last_color_missing ! 0 \<noteq> 0
               then (if last_color_missing ! 1 \<noteq> 0
                     then (case commit_guess srv info (Some [7, 7, 7, 7, 7]) res of
                             Inl f \<Rightarrow> Inl f
                           | Inr (ret, info1, res1) \<Rightarrow>
                               if ret \<noteq> 0 then Inr (Inl (ret, info1))
                               else
                                 (let info2 = info1\<lparr>result := (result info1)
                                        [1 := (result info1 ! 1)
                                           \<lparr>real_hits := real_hits (result info1 ! 1) + res_total res1\<rparr>]\<rparr>;
                                      info3 = info2\<lparr>possible := (possible info2)
                                        [7 := possible info2 ! 7 OR push_bit SLOTS (res_total res1)]\<rparr>
                                  in Inr (Inr (0, info3, tot + res_total res1))))
                     else Inr (Inr (0, info, tot)))
               else Inr (Inr (1, info, tot))) of
           Inl f \<Rightarrow> Inl f
         | Inr (Inl r) \<Rightarrow> Inr r
         | Inr (Inr (i, info4, tot1)) \<Rightarrow> Inr (0, absorb_remainder i info4 tot1))
      else Inr (0, info\<lparr>possible := (possible info)[3 := 0, 7 := 0]\<rparr>))"

definition analyse_colors :: "server \<Rightarrow> gameinfo_t \<Rightarrow> fault + (u8 \<times> gameinfo_t)" where
  "analyse_colors srv info =
     (case partition_loop srv 0 info zero_result 0 [0, 0] of
        Inl f \<Rightarrow> Inl f
      | Inr (Inl r) \<Rightarrow> Inr r
      | Inr (Inr (info1, res1, tot, last_color_missing)) \<Rightarrow>
          last_colors srv info1 res1 tot last_color_missing)"

subsection \<open>The game\<close>

definition initial_game :: gameinfo_t where
  "initial_game =
     \<lparr>guess = 0, request_buf = [0, 0], response_buf = 0, error = 0, round = 0,
      partitions = [[beige, beige, darkblue, green, orange],
                    [red_c, red_c, black, violet, white_c]],
      result = [zero_result, zero_result],
      possible = replicate COLORS ALL_SLOTS,
      comb = None, first_perm = [], processed = [], wire = []\<rparr>"

definition start_game :: "server \<Rightarrow> fault + (u8 \<times> gameinfo_t)" where
  "start_game srv =
     (case analyse_partitions srv initial_game of
        Inl f \<Rightarrow> Inl f
      | Inr (ret, info1) \<Rightarrow>
          if ret \<noteq> 0 then Inr (ret, info1)
          else (case analyse_colors srv info1 of
                  Inl f \<Rightarrow> Inl f
                | Inr (ret1, info2) \<Rightarrow>
                    if ret1 \<noteq> 0 then Inr (ret1, info2)
                    else (case analyse_combinations srv (analyse_possible info2) of
                            Inl f \<Rightarrow> Inl f
                          | Inr (ret2, info3) \<Rightarrow>
                              if ret2 \<noteq> 0 then Inr (ret2, info3)
                              else Inr (0 OR GAME_ERROR_BIT, info3))))"

section \<open>Properties\<close>

subsection \<open>Parity of the request\<close>

lemma popcount_upto_snoc:
  "popcount_upto (Suc n) w = popcount_upto n w + (if bit w n then 1 else 0)"
  by (simp add: popcount_upto_def)

lemma popcount_upto_cong:
  "(\<And>i. i < n \<Longrightarrow> bit v i = bit w i) \<Longrightarrow> popcount_upto n v = popcount_upto n w"
  unfolding popcount_upto_def
  by (rule arg_cong [where f = length], rule filter_cong) auto

lemma bit_32768: "bit (32768::int) i \<longleftrightarrow> i = 15"
proof -
  have "(32768::int) = push_bit 15 1" by simp
  then show ?thesis by (simp only: bit_push_bit_iff) (auto simp add: bit_simps)
qed

lemma bit_65280: "bit (65280::int) i \<longleftrightarrow> 8 \<le> i \<and> i < 16"
proof -
  have "(65280::int) = push_bit 8 (mask 8)" by (simp add: mask_eq_exp_minus_1)
  then show ?thesis by (simp only: bit_push_bit_iff bit_mask_iff) (auto simp add: bit_simps)
qed

lemma compute_parity_eq:
  "compute_parity g = (g AND NOT (push_bit 15 1)) OR (if odd (popcount_upto 15 g) then push_bit 15 1 else 0)"
  by (simp add: compute_parity_def parity_loop_eq SLOTS_def COLOR_WIDTH_def)

lemma compute_parity_low: "i < 15 \<Longrightarrow> bit (compute_parity g) i = bit g i"
  by (simp add: compute_parity_eq bit_simps bit_32768)

lemma compute_parity_bit15: "bit (compute_parity g) 15 = odd (popcount_upto 15 g)"
  by (simp add: compute_parity_eq bit_simps bit_32768)

lemma compute_parity_take: "take_bit 15 (compute_parity g) = take_bit 15 g"
  by (rule bit_word_eqI) (auto simp add: bit_simps compute_parity_low)

lemma compute_parity_even: "even (popcount_upto 16 (compute_parity g))"
proof -
  have "popcount_upto 15 (compute_parity g) = popcount_upto 15 g"
    by (rule popcount_upto_cong) (simp add: compute_parity_low)
  moreover have "popcount_upto 16 (compute_parity g)
      = popcount_upto 15 (compute_parity g) + (if bit (compute_parity g) 15 then 1 else 0)"
    using popcount_upto_snoc [of 15 "compute_parity g"] by simp
  ultimately show ?thesis
    by (simp add: compute_parity_bit15)
qed

lemma low_byte: "unat (ucast ((r::u16) AND NOT (push_bit 8 255)) :: u8) = unat r mod 256"
proof -
  have "(ucast (r AND NOT (push_bit 8 255)) :: u8) = ucast r"
    by (rule bit_word_eqI) (auto simp add: bit_simps bit_65280)
  then show ?thesis
    by (simp add: unsigned_ucast_eq take_bit_eq_mod)
qed

lemma high_byte: "unat (ucast (drop_bit 8 (r::u16)) :: u8) = unat r div 256"
proof -
  have d: "unat (drop_bit 8 r) = unat r div 256"
    by (simp add: unat_drop_bit_eq drop_bit_eq_div unat_div)
  have "unat r < 65536"
    using unsigned_less [of r, where ?'a = nat] by simp
  then have lt: "unat r div 256 < 256"
    by simp
  have "unat (ucast (drop_bit 8 r) :: u8) = unat (drop_bit 8 r) mod 256"
    by (simp only: unsigned_ucast_eq take_bit_eq_mod) simp
  also have "\<dots> = unat r div 256"
    unfolding d using lt by (rule mod_less)
  finally show ?thesis .
qed

text \<open>
  Claim C8.  For every 16-bit guess, \<open>generate_request\<close> sets bit 15 of the
  transmitted value to the XOR of bits 0 to 14 of the guess (the parity of
  their number), whatever bit 15 was before, and leaves bits 0 to 14 as they
  are; the 16 transmitted bits then contain an even number of ones; and the
  buffer holds two bytes, the low byte (bits 0 to 7) first and the high byte
  second.
\<close>

theorem generate_request_parity:
  "(case generate_request g of
      (buf, req) \<Rightarrow>
        bit req 15 = odd (popcount_upto 15 g) \<and>
        take_bit 15 req = take_bit 15 g \<and>
        even (popcount_upto 16 req) \<and>
        length buf = 2 \<and>
        unat (buf ! 0) = unat req mod 256 \<and>
        unat (buf ! 1) = unat req div 256)"
proof -
  obtain buf req where gr: "generate_request g = (buf, req)"
    by (cases "generate_request g")
  then have r: "req = compute_parity g"
    and b: "buf = [ucast (req AND NOT (push_bit 8 255)), ucast (drop_bit 8 req)]"
    by (auto simp add: generate_request_def Let_def)
  have b0: "buf ! 0 = ucast (req AND NOT (push_bit 8 255))"
    and b1: "buf ! 1 = ucast (drop_bit 8 req)" and bl: "length buf = 2"
    unfolding b by simp_all
  have "bit req 15 = odd (popcount_upto 15 g) \<and>
        take_bit 15 req = take_bit 15 g \<and>
        even (popcount_upto 16 req) \<and>
        length buf = 2 \<and>
        unat (buf ! 0) = unat req mod 256 \<and>
        unat (buf ! 1) = unat req div 256"
    unfolding b0 b1 low_byte high_byte
    using bl by (simp add: r compute_parity_bit15 compute_parity_take compute_parity_even)
  then show ?thesis
    unfolding gr by simp
qed

subsection \<open>The guess selector\<close>

text \<open>A code is consistent with the processed guesses when its number of
  exact-position matches with each of them is the red count recorded for
  it.\<close>

definition consistent :: "u16 \<Rightarrow> perm_list_t list \<Rightarrow> bool" where
  "consistent c procd = list_all (\<lambda>q. exact_matches c (combination q) = unat (red q)) procd"

lemma slot_Suc: "slot c (Suc j) = slot (drop_bit 3 c) j"
  by (simp add: slot_def drop_bit_drop_bit add.commute)

lemma slot_0: "slot c 0 = c AND 7"
  by (simp add: slot_def)

lemma compare_loop_eq:
  "compare_loop n c1 c2 eq = eq + of_nat (length (filter (\<lambda>j. slot c1 j = slot c2 j) [0..<n]))"
proof (induction n arbitrary: c1 c2 eq)
  case 0
  show ?case by simp
next
  case (Suc n)
  have "filter (\<lambda>j. slot c1 j = slot c2 j) (map Suc [0..<n])
      = map Suc (filter (\<lambda>j. slot (drop_bit 3 c1) j = slot (drop_bit 3 c2) j) [0..<n])"
    by (simp add: filter_map comp_def slot_Suc)
  then have "length (filter (\<lambda>j. slot c1 j = slot c2 j) [0..<Suc n])
      = (if slot c1 0 = slot c2 0 then 1 else 0)
        + length (filter (\<lambda>j. slot (drop_bit 3 c1) j = slot (drop_bit 3 c2) j) [0..<n])"
    unfolding upt_Suc_shift by simp
  then show ?case
    by (simp add: Suc.IH slot_0)
qed

lemma exact_matches_le: "exact_matches c1 c2 \<le> 5"
  unfolding exact_matches_def by (metis length_filter_le length_upt diff_zero)

lemma compare_perm_equal_pos_eq: "compare_perm_equal_pos c1 c2 = of_nat (exact_matches c1 c2)"
  by (simp add: compare_perm_equal_pos_def compare_loop_eq exact_matches_def SLOTS_def)

lemma compare_eq_iff:
  "compare_perm_equal_pos c1 c2 = r \<longleftrightarrow> exact_matches c1 c2 = unat r"
proof -
  have "exact_matches c1 c2 < 256"
    using exact_matches_le [of c1 c2] by simp
  then have "unat (of_nat (exact_matches c1 c2) :: u8) = exact_matches c1 c2"
    by (simp add: unat_of_nat)
  then show ?thesis
    unfolding compare_perm_equal_pos_eq word_unat_eq_iff by simp
qed

lemma matching_loop_eq: "matching_loop pc procd = consistent pc procd"
  by (induction procd) (simp_all add: consistent_def compare_eq_iff)

lemma find_best_perm_loop_None:
  "find_best_perm_loop ps procd n = None \<Longrightarrow> list_all (\<lambda>p. \<not> consistent (combination p) procd) ps"
  by (induction ps arbitrary: n) (auto simp add: matching_loop_eq split: if_splits)

lemma find_best_perm_loop_Some:
  "find_best_perm_loop ps procd n = Some k \<Longrightarrow>
     n \<le> k \<and> k - n < length ps \<and> consistent (combination (ps ! (k - n))) procd \<and>
     (\<forall>m < k - n. \<not> consistent (combination (ps ! m)) procd)"
proof (induction ps arbitrary: n)
  case Nil
  then show ?case by simp
next
  case (Cons p ps)
  show ?case
  proof (cases "matching_loop (combination p) procd")
    case True
    with Cons.prems show ?thesis by (simp add: matching_loop_eq)
  next
    case False
    with Cons.prems have "find_best_perm_loop ps procd (Suc n) = Some k" by simp
    from Cons.IH [OF this] have k: "Suc n \<le> k" and l: "k - Suc n < length ps"
      and c: "consistent (combination (ps ! (k - Suc n))) procd"
      and e: "\<forall>m < k - Suc n. \<not> consistent (combination (ps ! m)) procd" by simp_all
    from k have s: "k - n = Suc (k - Suc n)" by simp
    have "\<forall>m < k - n. \<not> consistent (combination ((p # ps) ! m)) procd"
    proof (intro allI impI)
      fix m assume "m < k - n"
      then show "\<not> consistent (combination ((p # ps) ! m)) procd"
        using e False s by (cases m) (simp_all add: matching_loop_eq)
    qed
    then show ?thesis using k l c s by simp
  qed
qed

text \<open>
  Claim C1.  For every candidate list and every list of processed guesses,
  \<open>find_best_perm\<close> returns the first candidate, in list order, whose
  count of exact-position matches with the code of every processed guess is
  that guess's recorded red count: the candidate returned is consistent with
  every processed guess and every candidate before it disagrees with some
  processed guess; it returns the null pointer exactly when no candidate is
  consistent.
\<close>

theorem find_best_perm_first:
  "(case find_best_perm info of
      None \<Rightarrow> list_all (\<lambda>p. \<not> consistent (combination p) (processed info)) (first_perm info)
    | Some n \<Rightarrow>
        n < length (first_perm info) \<and>
        consistent (combination (first_perm info ! n)) (processed info) \<and>
        (\<forall>m < n. \<not> consistent (combination (first_perm info ! m)) (processed info)))"
proof (cases "find_best_perm info")
  case None
  then show ?thesis
    using find_best_perm_loop_None [of "first_perm info" "processed info" 0]
    by (simp add: find_best_perm_def)
next
  case (Some n)
  then show ?thesis
    using find_best_perm_loop_Some [of "first_perm info" "processed info" 0 n]
    by (simp add: find_best_perm_def)
qed

definition select_example :: gameinfo_t where
  "select_example = initial_game
     \<lparr>first_perm := [\<lparr>combination = 73, red = 0\<rparr>, \<lparr>combination = 577, red = 0\<rparr>,
                      \<lparr>combination = 521, red = 0\<rparr>],
      processed := [\<lparr>combination = 32768 + 73, red = 3\<rparr>]\<rparr>"

theorem find_best_perm_first_witness:
  "find_best_perm select_example = Some 1 \<and>
   consistent (combination (first_perm select_example ! 1)) (processed select_example) \<and>
   \<not> consistent (combination (first_perm select_example ! 0)) (processed select_example)"
proof -
  have f: "find_best_perm select_example = Some 1"
    by code_simp
  from find_best_perm_first [of select_example] f
  show ?thesis by simp
qed

subsection \<open>The enumeration of combinations\<close>

text \<open>A value fits a mask and a count when it is a subset of the mask and has
  exactly that many set bits among its low five bits.\<close>

definition fits :: "u8 \<Rightarrow> u8 \<Rightarrow> u8 \<Rightarrow> bool" where
  "fits m c v \<longleftrightarrow> v AND m = v \<and> popcount_upto 5 v = unat c"

lemma good_fits: "good m c v = fits m c v"
proof -
  have "popcount_upto 5 v < 256"
    using popcount_upto_le [of 5 v] by simp
  then have "unat (of_nat (popcount_upto 5 v) :: u8) = popcount_upto 5 v"
    by (simp add: unat_of_nat)
  then have "(of_nat (popcount_upto 5 v) = c) = (popcount_upto 5 v = unat c)"
    unfolding word_unat_eq_iff by simp
  then show ?thesis
    by (simp add: good_def fits_def calculate_set_bits_eq SLOTS_def)
qed

lemma range_nth:
  assumes "a + j < b" and "b \<le> 256"
  shows "unat (map of_nat [a..<b] ! j :: u8) = a + j"
proof -
  have "(map of_nat [a..<b] ! j :: u8) = of_nat (a + j)"
    using assms(1) by (simp del: of_nat_add)
  then have "unat (map of_nat [a..<b] ! j :: u8) = (a + j) mod 256"
    by (simp only: unat_of_nat) simp
  then show ?thesis using assms by simp
qed

lemma find_range_None:
  assumes "List.find P (map of_nat [a..<b]) = None" and "b \<le> 256"
    and "a \<le> unat (u::u8)" and "unat u < b"
  shows "\<not> P u"
proof -
  let ?j = "unat u - a"
  have j: "a + ?j < b" using assms by simp
  have "unat (map of_nat [a..<b] ! ?j :: u8) = unat u"
    using range_nth [OF j assms(2)] assms(3) by simp
  then have "(map of_nat [a..<b] ! ?j :: u8) = u"
    by (simp add: word_unat_eq_iff)
  moreover have "?j < length (map (of_nat :: nat \<Rightarrow> u8) [a..<b])" using j by simp
  ultimately have "u \<in> set (map of_nat [a..<b])"
    by (metis nth_mem)
  with assms(1) show ?thesis
    unfolding find_None_iff by blast
qed

lemma find_range_least:
  assumes f: "List.find P (map of_nat [a..<b]) = Some (v::u8)" and b: "b \<le> 256"
    and u: "a \<le> unat (u::u8)" "unat u < unat v"
  shows "\<not> P u"
proof -
  from f obtain i where i: "i < length (map (of_nat :: nat \<Rightarrow> u8) [a..<b])"
    and v: "v = map of_nat [a..<b] ! i"
    and least: "\<forall>j<i. \<not> P (map of_nat [a..<b] ! j)"
    unfolding find_Some_iff by blast
  from i have ib: "a + i < b" by simp
  have uv: "unat v = a + i"
    unfolding v by (rule range_nth [OF ib b])
  let ?j = "unat u - a"
  have j: "?j < i" using u uv by simp
  then have "a + ?j < b" using ib by simp
  from range_nth [OF this b] u have "unat (map of_nat [a..<b] ! ?j :: u8) = unat u" by simp
  then have "(map of_nat [a..<b] ! ?j :: u8) = u"
    by (simp add: word_unat_eq_iff)
  with least j show ?thesis by metis
qed

lemma first_start_cases:
  assumes "1 \<le> unat c" and "unat c \<le> 5"
  shows "c = 1 \<or> c = 2 \<or> c = 3 \<or> c = 4 \<or> (c::u8) = 5"
proof -
  have "unat c = 1 \<or> unat c = 2 \<or> unat c = 3 \<or> unat c = 4 \<or> unat c = 5"
    using assms by arith
  then show ?thesis
    by (auto simp add: word_unat_eq_iff)
qed

lemma first_start_eq:
  assumes "1 \<le> unat c" and "unat c \<le> 5"
  shows "first_start c = 2 ^ unat c - 2"
  using first_start_cases [OF assms]
  by (auto simp add: first_start_def COLORS_def mask_eq_exp_minus_1)

lemma popcount5_eval:
  "popcount_upto 5 v =
     (if bit v 0 then 1 else 0) + (if bit v 1 then 1 else 0) + (if bit v 2 then 1 else 0)
     + (if bit v 3 then 1 else 0) + (if bit v 4 then 1 else 0)"
proof -
  have "[0..<5] = [0, 1, 2, 3, 4]"
    by (simp add: upt_rec)
  then show ?thesis
    by (simp add: popcount_upto_def)
qed


lemma below_first_table:
  "list_all (\<lambda>c. list_all (\<lambda>k. popcount_upto 5 (of_nat k :: u8) \<noteq> c) [0..<2 ^ c - 1])
     [1, 2, 3, 4, 5]"
  by code_simp

lemma at_first_table:
  "list_all (\<lambda>c. popcount_upto 5 (2 ^ c - 1 :: u8) = c) [1, 2, 3, 4, 5]"
  by code_simp

lemma below_first:
  assumes c: "1 \<le> unat c" "unat c \<le> 5" and u: "unat u < 2 ^ unat c - 1"
  shows "popcount_upto 5 (u::u8) \<noteq> unat c"
proof -
  have "unat c \<in> set [1, 2, 3, 4, 5]"
    using c by (simp) arith
  with below_first_table
  have "list_all (\<lambda>k. popcount_upto 5 (of_nat k :: u8) \<noteq> unat c) [0..<2 ^ unat c - 1]"
    unfolding list_all_iff by blast
  moreover have "unat u \<in> set [0..<2 ^ unat c - 1]"
    using u by simp
  ultimately have "popcount_upto 5 (of_nat (unat u) :: u8) \<noteq> unat c"
    unfolding list_all_iff by blast
  then show ?thesis by simp
qed

lemma at_first:
  assumes c: "1 \<le> unat c" "unat c \<le> 5"
  shows "popcount_upto 5 (2 ^ unat c - 1 :: u8) = unat c"
proof -
  have "unat c \<in> set [1, 2, 3, 4, 5]"
    using c by (simp) arith
  with at_first_table show ?thesis
    unfolding list_all_iff by blast
qed

text \<open>
  Claim C4, as amended.  For every 5-bit mask \<open>m\<close>, every count \<open>c\<close> from 1
  to 5 and every start value \<open>s\<close> up to 253, \<open>compute_combination s m c\<close>
  returns, and what it returns is the smallest \<open>v\<close> with \<open>s < v \<le> m\<close> that
  is a subset of \<open>m\<close> and has exactly \<open>c\<close> set bits among its low five
  bits, or 0 when there is no such \<open>v\<close>.  The start value the builder
  passes first is \<open>2 ^ c - 2\<close>, so the first value tested is \<open>2 ^ c - 1\<close>,
  which has \<open>c\<close> set bits while no smaller value has.
  (For the start values 254 and 255 the increment wraps around.)
\<close>

theorem compute_combination_next:
  assumes m: "unat m \<le> 31" and c: "1 \<le> unat c" "unat c \<le> 5" and s: "unat s \<le> 253"
  shows "\<exists>v. compute_combination s m c = Some v \<and>
           (if \<exists>u. s < u \<and> u \<le> m \<and> fits m c u
            then s < v \<and> v \<le> m \<and> fits m c v \<and> (\<forall>u. s < u \<and> u < v \<longrightarrow> \<not> fits m c u)
            else v = 0) \<and>
           first_start c = 2 ^ unat c - 2 \<and>
           first_start c + 1 = 2 ^ unat c - 1 \<and>
           popcount_upto 5 (first_start c + 1) = unat c \<and>
           (\<forall>u::u8. unat u < 2 ^ unat c - 1 \<longrightarrow> popcount_upto 5 u \<noteq> unat c)"
proof -
  let ?xs = "map of_nat [Suc (unat s)..<Suc (unat m)] :: u8 list"
  let ?v = "case List.find (fits m c) ?xs of None \<Rightarrow> 0 | Some v \<Rightarrow> v"
  have m': "unat m \<le> 254" and b: "Suc (unat m) \<le> 256" using m by simp_all
  have g: "good m c = fits m c"
    by (rule ext) (rule good_fits)
  have r: "compute_combination s m c = Some ?v"
    using compute_combination_no_wrap [OF m' s, of c] unfolding g .
  have fs: "first_start c = 2 ^ unat c - 2"
    by (rule first_start_eq [OF c])
  then have fs1: "first_start c + 1 = 2 ^ unat c - 1"
    by simp
  have main: "if \<exists>u. s < u \<and> u \<le> m \<and> fits m c u
            then s < ?v \<and> ?v \<le> m \<and> fits m c ?v \<and> (\<forall>u. s < u \<and> u < ?v \<longrightarrow> \<not> fits m c u)
            else ?v = 0"
  proof (cases "List.find (fits m c) ?xs")
    case None
    have "\<not> fits m c u" if "s < u" "u \<le> m" for u
    proof -
      from that have "Suc (unat s) \<le> unat u" "unat u < Suc (unat m)"
        by (simp_all add: word_less_nat_alt word_le_nat_alt)
      then show ?thesis
        by (rule find_range_None [OF None b])
    qed
    then show ?thesis using None by (auto simp del: upt_Suc)
  next
    case (Some v)
    from find_range_Some [OF Some b]
    have f: "fits m c v" and lo: "Suc (unat s) \<le> unat v" and hi: "unat v < Suc (unat m)"
      by simp_all
    have least: "\<not> fits m c u" if "s < u" "u < v" for u
    proof -
      from that have "Suc (unat s) \<le> unat u" "unat u < unat v"
        by (simp_all add: word_less_nat_alt)
      then show ?thesis
        by (rule find_range_least [OF Some b])
    qed
    have "s < v" "v \<le> m"
      using lo hi by (simp_all add: word_less_nat_alt word_le_nat_alt)
    then show ?thesis
      using Some f least by (auto simp del: upt_Suc)
  qed
  have p1: "popcount_upto 5 (first_start c + 1) = unat c"
    unfolding fs1 by (rule at_first [OF c])
  have p2: "\<forall>u. unat u < 2 ^ unat c - 1 \<longrightarrow> popcount_upto 5 (u::u8) \<noteq> unat c"
    using below_first [OF c] by blast
  show ?thesis
  proof (rule exI [of _ ?v], intro conjI)
    show "compute_combination s m c = Some ?v" by (rule r)
    show "if \<exists>u. s < u \<and> u \<le> m \<and> fits m c u
            then s < ?v \<and> ?v \<le> m \<and> fits m c ?v \<and> (\<forall>u. s < u \<and> u < ?v \<longrightarrow> \<not> fits m c u)
            else ?v = 0" by (rule main)
    show "first_start c = 2 ^ unat c - 2" by (rule fs)
    show "first_start c + 1 = 2 ^ unat c - 1" by (rule fs1)
    show "popcount_upto 5 (first_start c + 1) = unat c" by (rule p1)
    show "\<forall>u. unat u < 2 ^ unat c - 1 \<longrightarrow> popcount_upto 5 (u::u8) \<noteq> unat c" by (rule p2)
  qed
qed

theorem compute_combination_next_witness:
  "compute_combination 3 29 2 = Some 5 \<and> fits 29 2 5 \<and> \<not> fits 29 2 4 \<and> first_start 2 = 2"
proof -
  have e: "compute_combination 3 29 2 = Some 5"
    by code_simp
  have f: "fits 29 2 5"
    by code_simp
  have "(3::u8) < 5 \<and> (5::u8) \<le> 29"
    by simp
  with f have ex: "\<exists>u::u8. 3 < u \<and> u \<le> 29 \<and> fits 29 2 u"
    by blast
  have "(3::u8) < 4 \<and> (4::u8) < 5"
    by simp
  with compute_combination_next [of 29 2 3] e ex show ?thesis
    by (auto split: if_splits)
qed

text \<open>Claim C4 as stated fails for the start value 255: there is no value
  above 255, yet the function returns 1.\<close>

theorem compute_combination_wraps:
  "compute_combination 255 31 1 = Some 1 \<and> (\<forall>v::u8. \<not> 255 < v)"
proof -
  have "compute_combination 255 31 1 = Some 1"
    by code_simp
  moreover have "\<not> 255 < v" for v :: u8
    using unsigned_less [of v, where ?'a = nat] by (simp add: word_less_nat_alt)
  ultimately show ?thesis by blast
qed

subsection \<open>The traffic and the processed list\<close>

text \<open>The 16-bit value that two request bytes transmit, low byte first.\<close>

definition decode_request :: "u8 list \<Rightarrow> u16" where
  "decode_request buf = ucast (buf ! 0) OR push_bit 8 (ucast (buf ! 1))"

text \<open>What one round trip must leave in the processed list: the value
  transmitted and the red count received.\<close>

definition node_of :: "u8 list \<times> u8 \<Rightarrow> perm_list_t" where
  "node_of x = \<lparr>combination = decode_request (fst x), red = RED (snd x)\<rparr>"

definition no_error :: "u8 list \<times> u8 \<Rightarrow> bool" where
  "no_error x \<longleftrightarrow> RESPONSE_ERROR (snd x) = 0"

text \<open>A stretch of traffic after which a call returned \<open>ret\<close> stopped at the
  first error: no response carries an error code, or only the last one does
  and \<open>ret\<close> is that code with the error bit.\<close>

definition stopped :: "u8 \<Rightarrow> (u8 list \<times> u8) list \<Rightarrow> bool" where
  "stopped ret new \<longleftrightarrow>
     list_all no_error new \<or>
     (new \<noteq> [] \<and> list_all no_error (butlast new) \<and>
      RESPONSE_ERROR (snd (last new)) \<noteq> 0 \<and>
      ret = RESPONSE_ERROR (snd (last new)) OR GAME_ERROR_BIT)"

text \<open>The byte the client holds after a round trip with the server: the
  byte the server answers or, when the round trip fails, the byte held
  before.  A stretch of traffic is served by the server when every response
  in it is that byte, given the traffic before it.\<close>

definition received :: "server \<Rightarrow> (u8 list \<times> u8) list \<Rightarrow> u8 \<Rightarrow> u8 list \<Rightarrow> u8" where
  "received srv h stale buf = (case srv h buf of Some r \<Rightarrow> r | None \<Rightarrow> stale)"

fun served :: "server \<Rightarrow> (u8 list \<times> u8) list \<Rightarrow> u8 \<Rightarrow> (u8 list \<times> u8) list \<Rightarrow> bool" where
  "served srv h stale [] = True"
| "served srv h stale (x # new) =
     (snd x = received srv h stale (fst x) \<and> served srv (h @ [x]) (snd x) new)"

definition last_response :: "u8 \<Rightarrow> (u8 list \<times> u8) list \<Rightarrow> u8" where
  "last_response stale new = (if new = [] then stale else snd (last new))"

text \<open>The traffic a call added, and what it must have done with it: every
  response is the one the server gave, and there is one processed node and
  one round per round trip, in order.\<close>

definition traffic :: "gameinfo_t \<Rightarrow> gameinfo_t \<Rightarrow> (u8 list \<times> u8) list" where
  "traffic info info1 = drop (length (wire info)) (wire info1)"

definition extends :: "server \<Rightarrow> gameinfo_t \<Rightarrow> u8 \<Rightarrow> gameinfo_t \<Rightarrow> bool" where
  "extends srv info ret info1 \<longleftrightarrow>
     wire info1 = wire info @ traffic info info1 \<and>
     served srv (wire info) (response_buf info) (traffic info info1) \<and>
     response_buf info1 = last_response (response_buf info) (traffic info info1) \<and>
     processed info1 = processed info @ map node_of (traffic info info1) \<and>
     round info1 = round info + of_nat (length (traffic info info1)) \<and>
     stopped ret (traffic info info1)"

lemma decode_generate:
  "generate_request g = (buf, g1) \<Longrightarrow> decode_request buf = g1"
proof -
  assume "generate_request g = (buf, g1)"
  then have b: "buf = [ucast (g1 AND NOT (push_bit 8 255)), ucast (drop_bit 8 g1)]"
    by (auto simp add: generate_request_def Let_def)
  have "(ucast (ucast (g1 AND NOT (push_bit 8 255)) :: u8) :: u16) OR
        push_bit 8 (ucast (ucast (drop_bit 8 g1) :: u8)) = g1"
    by (rule bit_word_eqI) (auto simp add: bit_simps bit_65280)
  then show ?thesis
    unfolding decode_request_def b by simp
qed

lemma error_bit_nonzero: "e OR GAME_ERROR_BIT \<noteq> 0"
proof
  assume "e OR GAME_ERROR_BIT = 0"
  then have "bit (e OR GAME_ERROR_BIT) 7 = bit (0::u8) 7" by simp
  then show False by (simp add: GAME_ERROR_BIT_def bit_simps)
qed

lemma stopped_0: "stopped 0 new = list_all no_error new"
  using error_bit_nonzero by (auto simp add: stopped_def)

lemma stopped_append:
  "list_all no_error new1 \<Longrightarrow> stopped ret new2 \<Longrightarrow> stopped ret (new1 @ new2)"
  by (cases "new2 = []") (auto simp add: stopped_def butlast_append)

lemma extends_refl: "extends srv info 0 info"
  by (simp add: extends_def traffic_def stopped_def last_response_def)

lemma traffic_eq: "wire info1 = wire info @ n \<Longrightarrow> traffic info info1 = n"
  by (simp add: traffic_def)

lemma served_append:
  "served srv h stale (n1 @ n2) =
     (served srv h stale n1 \<and> served srv (h @ n1) (last_response stale n1) n2)"
  by (induction n1 arbitrary: h stale) (auto simp add: last_response_def)

lemma last_response_append:
  "last_response stale (n1 @ n2) = last_response (last_response stale n1) n2"
  by (simp add: last_response_def)

lemma extends_trans:
  assumes "extends srv info 0 info1" and "extends srv info1 ret info2"
  shows "extends srv info ret info2"
proof -
  define n1 where "n1 = traffic info info1"
  define n2 where "n2 = traffic info1 info2"
  from assms have w1: "wire info1 = wire info @ n1" and w2: "wire info2 = wire info1 @ n2"
    and p1: "processed info1 = processed info @ map node_of n1"
    and p2: "processed info2 = processed info1 @ map node_of n2"
    and r1: "round info1 = round info + of_nat (length n1)"
    and r2: "round info2 = round info1 + of_nat (length n2)"
    and v1: "served srv (wire info) (response_buf info) n1"
    and v2: "served srv (wire info1) (response_buf info1) n2"
    and b1: "response_buf info1 = last_response (response_buf info) n1"
    and b2: "response_buf info2 = last_response (response_buf info1) n2"
    and s1: "stopped 0 n1" and s2: "stopped ret n2"
    by (simp_all add: extends_def n1_def n2_def)
  from w1 w2 have "wire info2 = wire info @ (n1 @ n2)" by simp
  then have t: "traffic info info2 = n1 @ n2" by (rule traffic_eq)
  have "list_all no_error n1"
    using s1 by (simp add: stopped_0)
  then have "stopped ret (n1 @ n2)"
    using s2 by (rule stopped_append)
  moreover have "served srv (wire info) (response_buf info) (n1 @ n2)"
    using v1 v2 w1 b1 by (simp add: served_append)
  moreover have "response_buf info2 = last_response (response_buf info) (n1 @ n2)"
    using b1 b2 by (simp add: last_response_append)
  ultimately show ?thesis
    using w1 w2 p1 p2 r1 r2 unfolding extends_def t by (simp add: algebra_simps)
qed

lemma init_request_loop_returns:
  "i \<le> SLOTS \<Longrightarrow> init_request_loop req i SLOTS colors \<noteq> None"
proof (induction req i SLOTS colors rule: init_request_loop.induct)
  case (1 req i colors)
  show ?case
  proof (cases "i < SLOTS")
    case False
    then show ?thesis by (subst init_request_loop.simps) simp
  next
    case True
    then obtain req1 where a: "add_color req (colors ! i) i = Some req1"
      by (simp add: add_color_def Let_def)
    from "1.hyps" [OF True a] True
    show ?thesis by (subst init_request_loop.simps) (simp add: a)
  qed
qed

lemma init_request_returns: "init_request SLOTS p \<noteq> None"
  unfolding init_request_def by (rule init_request_loop_returns) simp

text \<open>The request bytes that \<open>commit_guess\<close> writes: the guess built from
  the colors given or, without colors, the guess in the state, with its
  parity bit, low byte first.\<close>

definition sent :: "gameinfo_t \<Rightarrow> color_t list option \<Rightarrow> u8 list" where
  "sent info partn =
     fst (generate_request
            (case partn of
               None \<Rightarrow> guess info
             | Some p \<Rightarrow> (case init_request SLOTS p of Some g \<Rightarrow> g | None \<Rightarrow> 0)))"

text \<open>\<open>commit_guess\<close> always returns, and what it returns and leaves behind
  is determined by the byte received.\<close>

lemma commit_response_cases:
  "\<exists>ret info1 res1. commit_response info res resp = (ret, info1, res1)"
  by (cases "commit_response info res resp") auto

lemma commit_guess_returns:
  "\<exists>ret info1 res1. commit_guess srv info partn res = Inr (ret, info1, res1)"
proof (cases partn)
  case None
  then show ?thesis
    by (simp add: commit_guess_def Let_def commit_response_cases split: prod.splits option.splits)
next
  case (Some p)
  obtain g where "init_request SLOTS p = Some g"
    using init_request_returns [of p] by auto
  with Some show ?thesis
    by (simp add: commit_guess_def Let_def commit_response_cases split: prod.splits option.splits)
qed

lemma commit_guess_result:
  assumes "commit_guess srv info partn res = Inr (ret, info1, res1)"
  shows "request_buf info1 = sent info partn"
    and "response_buf info1 = received srv (wire info) (response_buf info) (sent info partn)"
    and "wire info1 = wire info @ [(request_buf info1, response_buf info1)]"
    and "guess info1 = decode_request (request_buf info1)"
    and "processed info1 = processed info
           @ [\<lparr>combination = guess info1, red = RED (response_buf info1)\<rparr>]"
    and "round info1 = round info + 1"
    and "error info1 = RESPONSE_ERROR (response_buf info1)"
    and "res1 = res\<lparr>res_red := RED (response_buf info1), res_white := WHITE (response_buf info1),
                    res_total := TOTAL (response_buf info1)\<rparr>"
    and "ret = (if RESPONSE_ERROR (response_buf info1) \<noteq> 0
                then RESPONSE_ERROR (response_buf info1) OR GAME_ERROR_BIT
                else if RED (response_buf info1) = 5 then round info + 1 else 0)"
  using assms
  by (auto simp add: commit_guess_def commit_response_def Let_def sent_def received_def decode_generate SLOTS_def
      word_greater_zero_iff
      split: option.splits prod.splits if_splits)

lemma commit_guess_extends:
  assumes "commit_guess srv info partn res = Inr (ret, info1, res1)"
  shows "extends srv info ret info1"
    and "\<exists>resp. traffic info info1 = [(request_buf info1, resp)] \<and>
           decode_request (request_buf info1) = guess info1 \<and>
           response_buf info1 = resp \<and>
           res1 = res\<lparr>res_red := RED resp, res_white := WHITE resp, res_total := TOTAL resp\<rparr> \<and>
           ret = (if RESPONSE_ERROR resp > 0 then RESPONSE_ERROR resp OR GAME_ERROR_BIT
                  else if RED resp = 5 then round info + 1 else 0)"
proof -
  note r = commit_guess_result [OF assms]
  have t: "traffic info info1 = [(request_buf info1, response_buf info1)]"
    using r(3) by (rule traffic_eq)
  show "extends srv info ret info1"
    unfolding extends_def t using r
    by (auto simp add: last_response_def node_of_def stopped_def no_error_def)
  show "\<exists>resp. traffic info info1 = [(request_buf info1, resp)] \<and>
           decode_request (request_buf info1) = guess info1 \<and>
           response_buf info1 = resp \<and>
           res1 = res\<lparr>res_red := RED resp, res_white := WHITE resp, res_total := TOTAL resp\<rparr> \<and>
           ret = (if RESPONSE_ERROR resp > 0 then RESPONSE_ERROR resp OR GAME_ERROR_BIT
                  else if RED resp = 5 then round info + 1 else 0)"
    unfolding t using r(4,8,9) by (simp add: word_greater_zero_iff)
qed

lemma extends_upd [simp]:
  "extends srv info ret (info1\<lparr>possible := p\<rparr>) = extends srv info ret info1"
  "extends srv info ret (info1\<lparr>result := r\<rparr>) = extends srv info ret info1"
  "extends srv info ret (info1\<lparr>guess := g\<rparr>) = extends srv info ret info1"
  "extends srv info ret (info1\<lparr>first_perm := f\<rparr>) = extends srv info ret info1"
  "extends srv info ret (info1\<lparr>comb := c\<rparr>) = extends srv info ret info1"
  "extends srv (info\<lparr>possible := p\<rparr>) ret info1 = extends srv info ret info1"
  "extends srv (info\<lparr>result := r\<rparr>) ret info1 = extends srv info ret info1"
  "extends srv (info\<lparr>guess := g\<rparr>) ret info1 = extends srv info ret info1"
  "extends srv (info\<lparr>first_perm := f\<rparr>) ret info1 = extends srv info ret info1"
  "extends srv (info\<lparr>comb := c\<rparr>) ret info1 = extends srv info ret info1"
  by (simp_all add: extends_def traffic_def)

lemma extends_any: "extends srv info ret info"
  by (simp add: extends_def traffic_def stopped_def last_response_def)

lemma analyse_partitions_loop_extends:
  "analyse_partitions_loop srv i j skip info = Inr (ret, info1) \<Longrightarrow> extends srv info ret info1"
proof (induction srv i j skip info rule: analyse_partitions_loop.induct)
  case (1 srv i j skip info)
  show ?case
  proof (cases "i < 2 \<and> \<not> skip")
    case False
    then show ?thesis
      using "1.prems" by (subst (asm) analyse_partitions_loop.simps) (auto simp add: extends_any)
  next
    case True
    then obtain r info2 res where c: "commit_guess srv info (Some (partitions info ! i)) (result info ! i) = Inr (r, info2, res)"
      using "1.prems" by (subst (asm) analyse_partitions_loop.simps) (auto split: sum.splits)
    from commit_guess_extends(1) [OF c] have e: "extends srv info r info2" .
    show ?thesis
    proof (cases "r = 0")
      case False
      then show ?thesis
        using "1.prems" True c e by (subst (asm) analyse_partitions_loop.simps) auto
    next
      case r0: True
      show ?thesis
        using "1.prems" True c e r0 "1.IH"
        apply (subst (asm) analyse_partitions_loop.simps)
        apply (auto simp add: Let_def split: prod.splits if_splits intro: extends_trans)
        done
    qed
  qed
qed


lemma analyse_partitions_extends:
  "analyse_partitions srv info = Inr (ret, info1) \<Longrightarrow> extends srv info ret info1"
  unfolding analyse_partitions_def by (rule analyse_partitions_loop_extends)

lemma color_loop_extends:
  "color_loop srv i j k info res tot found = Inr (Inl (ret, info1)) \<Longrightarrow> extends srv info ret info1"
  "color_loop srv i j k info res tot found = Inr (Inr (info2, res2, tot2, found2)) \<Longrightarrow> extends srv info 0 info2"
proof (induction srv i j k info res tot found rule: color_loop.induct)
  case (1 srv i j k info res tot found)
  {
    case 1
    show ?case
    proof (cases "k < i * 4 + 3")
      case False
      then show ?thesis
        using "1.prems" by (subst (asm) color_loop.simps) simp
    next
      case True
      then obtain r infoa resa where c: "commit_guess srv info (Some [k, k, k, k, k]) res = Inr (r, infoa, resa)"
        using "1.prems" by (subst (asm) color_loop.simps) (auto split: sum.splits)
      from commit_guess_extends(1) [OF c] have e: "extends srv info r infoa" .
      show ?thesis
        using "1.prems" True c e "1.IH"(1,3)
        apply (subst (asm) color_loop.simps)
        apply (auto simp add: Let_def split: prod.splits if_splits intro: extends_trans)
        done
    qed
  next
    case 2
    show ?case
    proof (cases "k < i * 4 + 3")
      case False
      then show ?thesis
        using "2.prems" by (subst (asm) color_loop.simps) (simp add: extends_refl)
    next
      case True
      then obtain r infoa resa where c: "commit_guess srv info (Some [k, k, k, k, k]) res = Inr (r, infoa, resa)"
        using "2.prems" by (subst (asm) color_loop.simps) (auto split: sum.splits)
      from commit_guess_extends(1) [OF c] have e: "extends srv info r infoa" .
      show ?thesis
        using "2.prems" True c e "1.IH"(2,4)
        apply (subst (asm) color_loop.simps)
        apply (auto simp add: Let_def split: prod.splits if_splits intro: extends_trans)
        done
    qed
  }
qed

lemma partition_loop_extends:
  "partition_loop srv i info res tot lc = Inr (Inl (ret, info1)) \<Longrightarrow> extends srv info ret info1"
  "partition_loop srv i info res tot lc = Inr (Inr (info2, res2, tot2, lc2)) \<Longrightarrow> extends srv info 0 info2"
proof (induction srv i info res tot lc rule: partition_loop.induct)
  case (1 srv i info res tot lc)
  {
    case 1
    then show ?case
      using "1.IH"(1,3)
      apply (subst (asm) partition_loop.simps)
      apply (auto split: if_splits sum.splits prod.splits
          dest: color_loop_extends intro: extends_trans)
      done
  next
    case 2
    then show ?case
      using "1.IH"(2,4)
      apply (subst (asm) partition_loop.simps)
      apply (auto simp add: extends_refl split: if_splits sum.splits prod.splits
          dest: color_loop_extends intro: extends_trans)
      done
  }
qed

lemma extends_absorb [simp]:
  "extends srv info ret (absorb_remainder i info1 tot) = extends srv info ret info1"
  by (simp add: absorb_remainder_def Let_def)

lemma last_colors_extends:
  assumes "last_colors srv info res tot lc = Inr (ret, info1)"
  shows "extends srv info ret info1"
proof (cases "tot < of_nat SLOTS \<and> lc ! 0 \<noteq> 0 \<and> lc ! 1 \<noteq> 0")
  case False
  then show ?thesis
    using assms unfolding last_colors_def
    by (auto simp add: extends_any split: if_splits)
next
  case True
  then obtain r infoa resa where c: "commit_guess srv info (Some [7, 7, 7, 7, 7]) res = Inr (r, infoa, resa)"
    using assms unfolding last_colors_def by (auto split: sum.splits)
  from commit_guess_extends(1) [OF c] have e: "extends srv info r infoa" .
  show ?thesis
    using assms True c e unfolding last_colors_def
    by (cases "r = 0") (auto simp add: Let_def)
qed

lemma analyse_colors_extends:
  assumes "analyse_colors srv info = Inr (ret, info1)"
  shows "extends srv info ret info1"
proof (cases "partition_loop srv 0 info zero_result 0 [0, 0]")
  case (Inl f)
  then show ?thesis using assms by (simp add: analyse_colors_def)
next
  case (Inr x)
  show ?thesis
  proof (cases x)
    case (Inl r)
    then show ?thesis
      using assms Inr partition_loop_extends(1) [of srv 0 info zero_result 0 "[0, 0]" "fst r" "snd r"]
      by (simp add: analyse_colors_def)
  next
    case (Inr y)
    obtain info2 res2 tot2 lc2 where y: "y = (info2, res2, tot2, lc2)"
      by (cases y)
    have p: "partition_loop srv 0 info zero_result 0 [0, 0] = Inr (Inr (info2, res2, tot2, lc2))"
      using \<open>partition_loop srv 0 info zero_result 0 [0, 0] = Inr x\<close> Inr y by simp
    then have "last_colors srv info2 res2 tot2 lc2 = Inr (ret, info1)"
      using assms by (simp add: analyse_colors_def)
    then have "extends srv info2 ret info1"
      by (rule last_colors_extends)
    with partition_loop_extends(2) [OF p] show ?thesis
      by (rule extends_trans)
  qed
qed

lemma fold_keeps:
  assumes "\<And>x s. P (f x s) = P s"
  shows "P (fold f xs s) = P s"
  using assms by (induction xs arbitrary: s) simp_all

lemma set_impossible_keeps:
  "wire (set_impossible i info) = wire info"
  "processed (set_impossible i info) = processed info"
  "round (set_impossible i info) = round info"
  "result (set_impossible i info) = result info"
  "partitions (set_impossible i info) = partitions info"
  "response_buf (set_impossible i info) = response_buf info"
  unfolding set_impossible_def
  by (rule fold_keeps, simp add: set_impossible_step_def Let_def)+

lemma clear_slots_keeps:
  "wire (clear_slots i info) = wire info"
  "processed (clear_slots i info) = processed info"
  "round (clear_slots i info) = round info"
  "result (clear_slots i info) = result info"
  "partitions (clear_slots i info) = partitions info"
  "response_buf (clear_slots i info) = response_buf info"
  unfolding clear_slots_def
  by (rule fold_keeps, simp add: clear_slots_step_def Let_def)+

lemma set_possible_keeps:
  "wire (set_possible i info) = wire info"
  "processed (set_possible i info) = processed info"
  "round (set_possible i info) = round info"
  "result (set_possible i info) = result info"
  "partitions (set_possible i info) = partitions info"
  "response_buf (set_possible i info) = response_buf info"
  unfolding set_possible_def
  by (rule fold_keeps, simp add: set_possible_step_def Let_def)+

lemma analyse_possible_keeps:
  "wire (analyse_possible info) = wire info"
  "processed (analyse_possible info) = processed info"
  "round (analyse_possible info) = round info"
  "response_buf (analyse_possible info) = response_buf info"
  unfolding analyse_possible_def
  by (rule fold_keeps,
      simp add: analyse_possible_step_def set_impossible_keeps clear_slots_keeps set_possible_keeps)+

lemma process_combinations_keeps:
  "wire (process_combinations info t counter) = wire info \<and>
   processed (process_combinations info t counter) = processed info \<and>
   round (process_combinations info t counter) = round info \<and>
   response_buf (process_combinations info t counter) = response_buf info"
proof (induction t arbitrary: info counter)
  case (Node col nc m cmb fc nx)
  show ?case
    by (cases fc; cases nx) (simp_all add: Let_def Node.IH)
qed

lemma extends_same:
  "wire a = wire b \<Longrightarrow> processed a = processed b \<Longrightarrow> round a = round b \<Longrightarrow>
   response_buf a = response_buf b \<Longrightarrow>
   extends srv a ret c = extends srv b ret c"
  by (simp add: extends_def traffic_def)

lemma combinations_loop_extends:
  "combinations_loop srv info cur res = Inr (ret, info1) \<Longrightarrow> extends srv info ret info1"
proof (induction srv info cur res rule: combinations_loop.induct)
  case (1 srv info cur res)
  show ?case
  proof (cases "cur \<ge> length (first_perm info)")
    case True
    then show ?thesis
      using "1.prems" by (subst (asm) combinations_loop.simps) simp
  next
    case False
    let ?info1 = "info\<lparr>guess := combination (first_perm info ! cur)\<rparr>"
    obtain r infoa resa where c: "commit_guess srv ?info1 None res = Inr (r, infoa, resa)"
      using "1.prems" False by (subst (asm) combinations_loop.simps) (auto simp add: Let_def split: sum.splits)
    from commit_guess_extends(1) [OF c] have e: "extends srv info r infoa" by simp
    show ?thesis
      using "1.prems" False c e "1.IH"
      apply (subst (asm) combinations_loop.simps)
      apply (auto simp add: Let_def split: if_splits option.splits intro: extends_trans)
      done
  qed
qed

lemma analyse_combinations_extends:
  assumes "analyse_combinations srv info = Inr (ret, info1)"
  shows "extends srv info ret info1"
proof -
  obtain lst where
    l: "combinations_loop srv (process_combinations (info\<lparr>guess := 0, comb := Some lst\<rparr>) lst 0) 0 zero_result
        = Inr (ret, info1)"
    using assms unfolding analyse_combinations_def
    by (auto simp add: Let_def split: sum.splits option.splits)
  let ?a = "process_combinations (info\<lparr>guess := 0, comb := Some lst\<rparr>) lst 0"
  have "extends srv ?a ret info1"
    using l by (rule combinations_loop_extends)
  moreover have "extends srv ?a ret info1 = extends srv info ret info1"
    by (rule extends_same) (simp_all add: process_combinations_keeps)
  ultimately show ?thesis by simp
qed

lemma start_game_extends:
  assumes "start_game srv = Inr (ret, info1)"
  shows "extends srv initial_game ret info1"
proof (cases "analyse_partitions srv initial_game")
  case (Inl f)
  then show ?thesis using assms by (simp add: start_game_def)
next
  case (Inr x)
  obtain r1 i1 where x: "x = (r1, i1)" by (cases x)
  have e1: "extends srv initial_game r1 i1"
    using Inr x by (simp add: analyse_partitions_extends)
  show ?thesis
  proof (cases "r1 = 0")
    case False
    then show ?thesis using assms Inr x e1 by (simp add: start_game_def)
  next
    case r1: True
    show ?thesis
    proof (cases "analyse_colors srv i1")
      case (Inl f)
      then show ?thesis using assms \<open>analyse_partitions srv initial_game = Inr x\<close> x r1
        by (simp add: start_game_def)
    next
      case (Inr y)
      obtain r2 i2 where y: "y = (r2, i2)" by (cases y)
      have e2: "extends srv i1 r2 i2"
        using Inr y by (simp add: analyse_colors_extends)
      have e12: "extends srv initial_game r2 i2"
        using e1 e2 r1 by (auto intro: extends_trans)
      show ?thesis
      proof (cases "r2 = 0")
        case False
        then show ?thesis
          using assms \<open>analyse_partitions srv initial_game = Inr x\<close> x r1 Inr y e12
          by (simp add: start_game_def)
      next
        case r2: True
        show ?thesis
        proof (cases "analyse_combinations srv (analyse_possible i2)")
          case (Inl f)
          then show ?thesis
            using assms \<open>analyse_partitions srv initial_game = Inr x\<close> x r1 Inr y r2
            by (simp add: start_game_def)
        next
          case (Inr z)
          obtain r3 i3 where z: "z = (r3, i3)" by (cases z)
          have "extends srv (analyse_possible i2) r3 i3"
            using Inr z by (simp add: analyse_combinations_extends)
          then have e3: "extends srv i2 r3 i3"
            by (simp add: extends_same [of "analyse_possible i2" i2] analyse_possible_keeps)
          have e: "extends srv initial_game r3 i3"
            using e12 e3 r2 by (auto intro: extends_trans)
          have ne: "r3 \<noteq> 0 \<Longrightarrow> ret = r3 \<and> info1 = i3"
            using assms \<open>analyse_partitions srv initial_game = Inr x\<close> x r1
              \<open>analyse_colors srv i1 = Inr y\<close> y r2 Inr z
            by (simp add: start_game_def)
          have eq: "r3 = 0 \<Longrightarrow> ret = 0 OR GAME_ERROR_BIT \<and> info1 = i3"
            using assms \<open>analyse_partitions srv initial_game = Inr x\<close> x r1
              \<open>analyse_colors srv i1 = Inr y\<close> y r2 Inr z
            by (simp add: start_game_def)
          show ?thesis
          proof (cases "r3 = 0")
            case False
            with ne e show ?thesis by simp
          next
            case True
            with e have "list_all no_error (traffic initial_game i3)"
              by (simp add: extends_def stopped_0)
            then have "stopped ret (traffic initial_game i3)"
              by (simp add: stopped_def)
            with e eq True show ?thesis
              by (simp add: extends_def)
          qed
        qed
      qed
    qed
  qed
qed

subsection \<open>The position refiner\<close>

text \<open>The known occurrence count of a color: the high three bits of its
  entry of \<open>possible\<close>.\<close>

definition occurrence_count :: "u8 \<Rightarrow> nat" where
  "occurrence_count p = unat (drop_bit 5 p)"

lemma bit_one_shift: "bit (push_bit j 1 :: u8) b \<longleftrightarrow> b = j \<and> j < 8"
  by (auto simp add: bit_simps)

lemma bit_two_power: "bit (2 ^ j :: u8) b \<longleftrightarrow> b = j \<and> j < 8"
  by (auto simp add: bit_simps)

lemma bit_high3: "bit (push_bit SLOTS 7 :: u8) b \<longleftrightarrow> 5 \<le> b \<and> b < 8"
proof -
  have "(push_bit SLOTS 7 :: u8) = push_bit 5 (mask 3)"
    by (simp add: mask_eq_exp_minus_1 SLOTS_def)
  then show ?thesis
    by (simp only: bit_push_bit_iff bit_mask_iff) (auto simp add: bit_simps)
qed

lemma nth_upd: "c < length xs \<Longrightarrow> xs[c0 := v] ! c = (if c0 = c then v else xs ! c)"
  by (cases "c0 = c") simp_all

lemma set_impossible_step_bit:
  assumes "c < length (possible info)"
  shows "bit (possible (set_impossible_step i j info) ! c) b \<longleftrightarrow>
           bit (possible info ! c) b \<and> \<not> (partitions info ! i ! j = c \<and> b = j)"
  using assms
  by (auto simp add: set_impossible_step_def Let_def nth_upd bit_simps bit_one_shift bit_two_power
      dest: bit_imp_le_length)

lemma set_impossible_step_frame:
  "partitions (set_impossible_step i j info) = partitions info"
  "length (possible (set_impossible_step i j info)) = length (possible info)"
  by (simp_all add: set_impossible_step_def Let_def)

lemma fold_set_impossible_bit:
  assumes "c < length (possible info)"
  shows "bit (possible (fold (set_impossible_step i) js info) ! c) b \<longleftrightarrow>
           bit (possible info ! c) b \<and> \<not> (b \<in> set js \<and> partitions info ! i ! b = c)"
  using assms
proof (induction js arbitrary: info)
  case Nil
  show ?case by simp
next
  case (Cons j js)
  have "c < length (possible (set_impossible_step i j info))"
    using Cons.prems by (simp add: set_impossible_step_frame)
  from Cons.IH [OF this] show ?case
    using Cons.prems
    by (auto simp add: set_impossible_step_frame set_impossible_step_bit)
qed

lemma clear_slots_step_bit:
  assumes "c < length (possible info)"
  shows "bit (possible (clear_slots_step i j info) ! c) b \<longleftrightarrow>
           bit (possible info ! c) b \<and> (partitions info ! i ! j = c \<longrightarrow> 5 \<le> b)"
  using assms
  by (auto simp add: clear_slots_step_def Let_def nth_upd bit_and_iff bit_high3
      dest: bit_imp_le_length)

lemma clear_slots_step_frame:
  "partitions (clear_slots_step i j info) = partitions info"
  "length (possible (clear_slots_step i j info)) = length (possible info)"
  by (simp_all add: clear_slots_step_def Let_def)

lemma fold_clear_slots_bit:
  assumes "c < length (possible info)"
  shows "bit (possible (fold (clear_slots_step i) js info) ! c) b \<longleftrightarrow>
           bit (possible info ! c) b \<and> ((\<exists>j \<in> set js. partitions info ! i ! j = c) \<longrightarrow> 5 \<le> b)"
  using assms
proof (induction js arbitrary: info)
  case Nil
  show ?case by simp
next
  case (Cons j js)
  have "c < length (possible (clear_slots_step i j info))"
    using Cons.prems by (simp add: clear_slots_step_frame)
  from Cons.IH [OF this] show ?case
    using Cons.prems
    by (auto simp add: clear_slots_step_frame clear_slots_step_bit)
qed

lemma or_eq_0: "(x OR y = 0) = (x = 0 \<and> y = (0::u8))"
  by (rule or_eq_0_iff)

lemma set_possible_step_bit:
  assumes "c < length (possible info)"
  shows "bit (possible (set_possible_step i j info) ! c) b \<longleftrightarrow>
           bit (possible info ! c) b \<or>
           (possible info ! c \<noteq> 0 \<and> partitions info ! i ! j = c \<and> b = j \<and> j < 8)"
    and "possible (set_possible_step i j info) ! c = 0 \<longleftrightarrow> possible info ! c = 0"
  using assms
  by (auto simp add: set_possible_step_def Let_def nth_upd bit_simps bit_one_shift bit_two_power or_eq_0)

lemma set_possible_step_frame:
  "partitions (set_possible_step i j info) = partitions info"
  "length (possible (set_possible_step i j info)) = length (possible info)"
  by (simp_all add: set_possible_step_def Let_def)

lemma fold_set_possible_bit:
  assumes "c < length (possible info)"
  shows "bit (possible (fold (set_possible_step i) js info) ! c) b \<longleftrightarrow>
           bit (possible info ! c) b \<or>
           (possible info ! c \<noteq> 0 \<and> b \<in> set js \<and> partitions info ! i ! b = c \<and> b < 8)"
  using assms
proof (induction js arbitrary: info)
  case Nil
  show ?case by simp
next
  case (Cons j js)
  have "c < length (possible (set_possible_step i j info))"
    using Cons.prems by (simp add: set_possible_step_frame)
  from Cons.IH [OF this] show ?case
    using Cons.prems
    by (auto simp add: set_possible_step_frame set_possible_step_bit)
qed

lemma high_zero_iff:
  assumes "\<And>b. bit (x::u8) b \<longleftrightarrow> bit (y::u8) b \<and> 5 \<le> b"
  shows "x = 0 \<longleftrightarrow> drop_bit 5 y = 0"
proof
  assume "x = 0"
  then have "\<not> bit y b" if "5 \<le> b" for b
    using assms [of b] that by simp
  then show "drop_bit 5 y = 0"
    by (intro bit_word_eqI) (simp add: bit_simps)
next
  assume z: "drop_bit 5 y = 0"
  have "\<not> bit x b" for b
  proof
    assume "bit x b"
    then have y: "bit y b" and b: "5 \<le> b" using assms [of b] by simp_all
    then have "bit (drop_bit 5 y) (b - 5)" by (simp add: bit_simps)
    with z show False by simp
  qed
  then show "x = 0"
    by (intro bit_word_eqI) simp
qed

lemma count_eq:
  assumes "\<And>b. 5 \<le> b \<Longrightarrow> bit (x::u8) b \<longleftrightarrow> bit (y::u8) b"
  shows "occurrence_count x = occurrence_count y"
proof -
  have "drop_bit 5 x = drop_bit 5 y"
    by (rule bit_word_eqI) (simp add: bit_simps assms)
  then show ?thesis by (simp add: occurrence_count_def)
qed

lemma occurrence_count_0: "occurrence_count y = 0 \<longleftrightarrow> drop_bit 5 y = 0"
  by (simp add: occurrence_count_def unat_eq_0)

lemma fold_clear_slots_frame:
  "partitions (fold (clear_slots_step i) js info) = partitions info"
  "length (possible (fold (clear_slots_step i) js info)) = length (possible info)"
  by (induction js arbitrary: info) (simp_all add: clear_slots_step_frame)

lemma fold_set_impossible_frame:
  "length (possible (fold (set_impossible_step i) js info)) = length (possible info)"
  by (induction js arbitrary: info) (simp_all add: set_impossible_step_frame)

lemma fold_set_possible_frame:
  "length (possible (fold (set_possible_step i) js info)) = length (possible info)"
  by (induction js arbitrary: info) (simp_all add: set_possible_step_frame)

text \<open>What one pass of the loop does to the entry of a color.\<close>

lemma analyse_possible_step_bit:
  assumes c: "c < length (possible info)"
  shows "bit (possible (analyse_possible_step i info) ! c) b \<longleftrightarrow>
     (if res_red (result info ! i) = 0
      then bit (possible info ! c) b \<and> \<not> (b < 5 \<and> partitions info ! i ! b = c)
      else if res_red (result info ! i) = real_hits (result info ! i)
      then (if \<exists>j<5. partitions info ! i ! j = c
            then (5 \<le> b \<and> bit (possible info ! c) b) \<or>
                 (occurrence_count (possible info ! c) \<noteq> 0 \<and> b < 5 \<and> partitions info ! i ! b = c)
            else bit (possible info ! c) b)
      else bit (possible info ! c) b)"
proof -
  let ?cl = "fold (clear_slots_step i) [0..<5] info"
  have clb: "bit (possible ?cl ! c) b \<longleftrightarrow>
      bit (possible info ! c) b \<and> ((\<exists>j<5. partitions info ! i ! j = c) \<longrightarrow> 5 \<le> b)" for b
    using fold_clear_slots_bit [OF c, of i "[0..<5]" b] by auto
  have clp: "partitions ?cl = partitions info" and cll: "c < length (possible ?cl)"
    using c by (simp_all add: fold_clear_slots_frame)
  have z: "(possible ?cl ! c = 0) = (occurrence_count (possible info ! c) = 0)"
    if "\<exists>j<5. partitions info ! i ! j = c"
    unfolding occurrence_count_0
    by (rule high_zero_iff) (use clb that in auto)
  have z': "possible ?cl ! c = possible info ! c" if "\<not> (\<exists>j<5. partitions info ! i ! j = c)"
    by (rule bit_word_eqI) (use clb that in auto)
  show ?thesis
    using fold_set_impossible_bit [OF c, of i "[0..<5]" b]
      fold_set_possible_bit [OF cll, of i "[0..<5]" b] clb [of b] clp z z'
    by (auto simp add: analyse_possible_step_def set_impossible_def set_possible_def
        clear_slots_def SLOTS_def dest: bit_imp_le_length)
qed

lemma analyse_possible_step_frame:
  "partitions (analyse_possible_step i info) = partitions info"
  "result (analyse_possible_step i info) = result info"
  "length (possible (analyse_possible_step i info)) = length (possible info)"
proof -
  show "partitions (analyse_possible_step i info) = partitions info"
    and "result (analyse_possible_step i info) = result info"
    by (simp_all add: analyse_possible_step_def set_impossible_keeps clear_slots_keeps
        set_possible_keeps)
  show "length (possible (analyse_possible_step i info)) = length (possible info)"
    by (simp add: analyse_possible_step_def set_impossible_def set_possible_def clear_slots_def
        fold_set_impossible_frame fold_set_possible_frame fold_clear_slots_frame)
qed

lemma analyse_possible_step_other:
  assumes "c < length (possible info)" and "c \<notin> set (partitions info ! i)"
    and "length (partitions info ! i) = 5"
  shows "possible (analyse_possible_step i info) ! c = possible info ! c"
proof (rule bit_word_eqI)
  fix b
  have "partitions info ! i ! j \<noteq> c" if "j < 5" for j
    using assms(2,3) that by (metis nth_mem)
  then show "bit (possible (analyse_possible_step i info) ! c) b = bit (possible info ! c) b"
    unfolding analyse_possible_step_bit [OF assms(1)] by auto
qed

lemma analyse_possible_step_own:
  assumes "c < length (possible info)" and "c \<in> set (partitions info ! i)"
    and "length (partitions info ! i) = 5"
  shows "bit (possible (analyse_possible_step i info) ! c) b \<longleftrightarrow>
     (if res_red (result info ! i) = 0
      then bit (possible info ! c) b \<and> \<not> (b < 5 \<and> partitions info ! i ! b = c)
      else if res_red (result info ! i) = real_hits (result info ! i)
      then (5 \<le> b \<and> bit (possible info ! c) b) \<or>
           (occurrence_count (possible info ! c) \<noteq> 0 \<and> b < 5 \<and> partitions info ! i ! b = c)
      else bit (possible info ! c) b)"
proof -
  have "\<exists>j<5. partitions info ! i ! j = c"
    using assms(2,3) by (metis in_set_conv_nth)
  then show ?thesis
    unfolding analyse_possible_step_bit [OF assms(1)] by auto
qed

lemma initial_partitions:
  "partitions initial_game ! 0 = [0, 0, 1, 2, 3]"
  "partitions initial_game ! 1 = [4, 4, 5, 6, 7]"
  "partitions initial_game ! Suc 0 = [4, 4, 5, 6, 7]"
  by (simp_all add: initial_game_def beige_def darkblue_def green_def orange_def red_c_def
      black_def violet_def white_c_def)

text \<open>
  Claim C6.  With the two partitions of the game, \<open>analyse_possible\<close> treats
  every color \<open>c\<close> of partition \<open>i\<close> by exactly one of two rules or not at
  all, and never changes its occurrence count.  If the probe of the
  partition reported no red mark, the slots that \<open>c\<close> held in the probe are
  cleared from its mask and the other bits stay.  If instead the red marks
  equal \<open>real_hits\<close>, a color with nonzero occurrence count gets as its mask
  exactly the slots it held in the probe, and a color with occurrence count
  zero gets the empty mask.  In neither case the mask stays as it was.
\<close>

theorem analyse_possible_rules:
  assumes "partitions info = partitions initial_game"
    and "length (possible info) = COLORS"
    and "i < 2"
    and "c \<in> set (partitions info ! i)"
  shows "occurrence_count (possible (analyse_possible info) ! c)
           = occurrence_count (possible info ! c) \<and>
         (\<forall>j<SLOTS. bit (possible (analyse_possible info) ! c) j \<longleftrightarrow>
            (if res_red (result info ! i) = 0
             then bit (possible info ! c) j \<and> partitions info ! i ! j \<noteq> c
             else if res_red (result info ! i) = real_hits (result info ! i)
             then occurrence_count (possible info ! c) \<noteq> 0 \<and> partitions info ! i ! j = c
             else bit (possible info ! c) j))"
proof -
  let ?s0 = "analyse_possible_step 0 info"
  have ap: "analyse_possible info = analyse_possible_step 1 ?s0"
    by (simp add: analyse_possible_def upt_rec)
  have p0: "partitions info ! 0 = [0, 0, 1, 2, 3]" and p1: "partitions info ! 1 = [4, 4, 5, 6, 7]"
    using assms(1) by (simp_all add: initial_partitions)
  have l0: "length (partitions info ! 0) = 5" and l1: "length (partitions info ! 1) = 5"
    using p0 p1 by simp_all
  have i: "i = 0 \<or> i = 1" using assms(3) by arith
  have c8: "c < length (possible info)"
    using assms(2,4) i p0 p1 by (auto simp add: COLORS_def)
  have bits: "bit (possible (analyse_possible info) ! c) b \<longleftrightarrow>
     (if res_red (result info ! i) = 0
      then bit (possible info ! c) b \<and> \<not> (b < 5 \<and> partitions info ! i ! b = c)
      else if res_red (result info ! i) = real_hits (result info ! i)
      then (5 \<le> b \<and> bit (possible info ! c) b) \<or>
           (occurrence_count (possible info ! c) \<noteq> 0 \<and> b < 5 \<and> partitions info ! i ! b = c)
      else bit (possible info ! c) b)" for b
  proof (cases "i = 0")
    case True
    have "c \<notin> set (partitions ?s0 ! 1)"
      using assms(4) True p0 p1 by (auto simp add: analyse_possible_step_frame)
    then have "possible (analyse_possible info) ! c = possible ?s0 ! c"
      unfolding ap using c8 l1
      by (intro analyse_possible_step_other) (simp_all add: analyse_possible_step_frame)
    then show ?thesis
      using analyse_possible_step_own [OF c8 _ l0, of b] assms(4) True by simp
  next
    case False
    then have i1: "i = 1" using i by simp
    have "c \<notin> set (partitions info ! 0)"
      using assms(4) i1 p0 p1 by auto
    then have e: "possible ?s0 ! c = possible info ! c"
      using c8 l0 by (intro analyse_possible_step_other)
    have "c \<in> set (partitions ?s0 ! 1)" "c < length (possible ?s0)" "length (partitions ?s0 ! 1) = 5"
      using assms(4) i1 c8 l1 by (simp_all add: analyse_possible_step_frame)
    from analyse_possible_step_own [OF this(2) this(1) this(3), of b]
    show ?thesis
      unfolding ap i1 e by (simp add: analyse_possible_step_frame)
  qed
  have "occurrence_count (possible (analyse_possible info) ! c)
           = occurrence_count (possible info ! c)"
    by (rule count_eq) (auto simp add: bits)
  moreover have "\<forall>j<SLOTS. bit (possible (analyse_possible info) ! c) j \<longleftrightarrow>
            (if res_red (result info ! i) = 0
             then bit (possible info ! c) j \<and> partitions info ! i ! j \<noteq> c
             else if res_red (result info ! i) = real_hits (result info ! i)
             then occurrence_count (possible info ! c) \<noteq> 0 \<and> partitions info ! i ! j = c
             else bit (possible info ! c) j)"
    by (auto simp add: bits SLOTS_def)
  ultimately show ?thesis by blast
qed

text \<open>A state after the color counter: two beige and three red, the first
  partition probed without red marks, the second with three.\<close>

definition refine_example :: gameinfo_t where
  "refine_example = initial_game
     \<lparr>result := [\<lparr>res_red = 0, res_white = 2, res_total = 2, real_hits = 2\<rparr>,
                  \<lparr>res_red = 3, res_white = 0, res_total = 3, real_hits = 3\<rparr>],
      possible := [95, 0, 0, 0, 127, 0, 0, 0]\<rparr>"

theorem analyse_possible_rules_witness:
  "occurrence_count (possible (analyse_possible refine_example) ! 0) = 2 \<and>
   \<not> bit (possible (analyse_possible refine_example) ! 0) 0 \<and>
   \<not> bit (possible (analyse_possible refine_example) ! 0) 1 \<and>
   bit (possible (analyse_possible refine_example) ! 0) 2 \<and>
   occurrence_count (possible (analyse_possible refine_example) ! 4) = 3 \<and>
   bit (possible (analyse_possible refine_example) ! 4) 0 \<and>
   bit (possible (analyse_possible refine_example) ! 4) 1 \<and>
   \<not> bit (possible (analyse_possible refine_example) ! 4) 2"
proof -
  have h: "partitions refine_example = partitions initial_game"
    "length (possible refine_example) = COLORS"
    by (simp_all add: refine_example_def COLORS_def)
  have p: "partitions refine_example ! 0 = [0, 0, 1, 2, 3]"
    "partitions refine_example ! 1 = [4, 4, 5, 6, 7]"
    unfolding h(1) by (simp_all add: initial_partitions)
  have v: "possible refine_example ! 0 = 95" "possible refine_example ! 4 = 127"
    "res_red (result refine_example ! 0) = 0" "res_red (result refine_example ! 1) = 3"
    "real_hits (result refine_example ! 1) = 3"
    by (simp_all add: refine_example_def)
  have o: "occurrence_count 95 = 2" "occurrence_count 127 = 3"
    by (simp_all add: occurrence_count_def drop_bit_eq_div)
  have j: "(0::nat) < SLOTS" "(1::nat) < SLOTS" "(2::nat) < SLOTS"
    by (simp_all add: SLOTS_def)
  from analyse_possible_rules [OF h, of 0 0] p v o j
  have a: "occurrence_count (possible (analyse_possible refine_example) ! 0) = 2 \<and>
   \<not> bit (possible (analyse_possible refine_example) ! 0) 0 \<and>
   \<not> bit (possible (analyse_possible refine_example) ! 0) 1 \<and>
   bit (possible (analyse_possible refine_example) ! 0) 2"
    by simp
  from analyse_possible_rules [OF h, of 1 4] p v o j
  have b: "occurrence_count (possible (analyse_possible refine_example) ! 4) = 3 \<and>
   bit (possible (analyse_possible refine_example) ! 4) 0 \<and>
   bit (possible (analyse_possible refine_example) ! 4) 1 \<and>
   \<not> bit (possible (analyse_possible refine_example) ! 4) 2"
    by simp
  from a b show ?thesis by simp
qed

subsection \<open>The partition prober\<close>

text \<open>The request bytes of the probe of a partition.\<close>

definition probe_of :: "color_t list \<Rightarrow> u8 list" where
  "probe_of p =
     (case init_request SLOTS p of
        Some g \<Rightarrow> fst (generate_request g)
      | None \<Rightarrow> [])"

lemma commit_guess_frame:
  assumes "commit_guess srv info partn res = Inr (ret, info1, res1)"
  shows "possible info1 = possible info" "result info1 = result info"
    "partitions info1 = partitions info" "first_perm info1 = first_perm info"
    "partn = Some p \<Longrightarrow> request_buf info1 = probe_of p"
  using assms
  by (auto simp add: commit_guess_def commit_response_def Let_def probe_of_def
      split: option.splits prod.splits if_splits)

text \<open>What \<open>analyse_partitions\<close> does with the result of the probe of
  partition \<open>i\<close>, the other partition being \<open>j\<close>.\<close>

definition after_probe :: "nat \<Rightarrow> nat \<Rightarrow> gameinfo_t \<Rightarrow> bool \<times> gameinfo_t" where
  "after_probe i j info2 =
     (if res_total (result info2 ! i) = 5
      then (True, info2\<lparr>result := (result info2)
                       [j := (result info2 ! j)\<lparr>res_red := 0, res_white := 0, res_total := 0\<rparr>],
                     possible := memset_zero (possible info2) (j * 4) 4\<rparr>)
      else if res_total (result info2 ! i) = 0
      then (True, info2\<lparr>result := (result info2)
                       [j := (result info2 ! j)\<lparr>res_red := 1, res_white := 0, res_total := 5\<rparr>],
                     possible := memset_zero (possible info2) (i * 4) 4\<rparr>)
      else (False, info2))"

lemma loop_unfold:
  assumes "i < 2" "j < 2" "i \<noteq> j" "length (result info) = 2"
    and "commit_guess srv info (Some (partitions info ! i)) (result info ! i) = Inr (0, info1, res1)"
  shows "analyse_partitions_loop srv i j False info =
     analyse_partitions_loop srv (i + 1) ((i + 2) mod 2)
       (fst (after_probe i j (info1\<lparr>result := (result info1)[i := res1]\<rparr>)))
       (snd (after_probe i j (info1\<lparr>result := (result info1)[i := res1]\<rparr>)))"
proof -
  have r: "result info1 = result info"
    using commit_guess_frame(2) [OF assms(5)] .
  show ?thesis
    using assms(1-4)
    by (subst analyse_partitions_loop.simps)
      (simp add: assms(5) after_probe_def Let_def r SLOTS_def)
qed

lemma fold_zero_nth:
  "m < length xs \<Longrightarrow>
   fold (\<lambda>k ys. ys[k := 0]) ks xs ! m = (if m \<in> set ks then 0 else (xs ! m :: u8))"
  by (induction ks arbitrary: xs) (auto simp add: nth_upd)

lemma fold_zero_length:
  "length (fold (\<lambda>k ys. ys[k := 0]) ks xs) = length (xs :: u8 list)"
  by (induction ks arbitrary: xs) simp_all

lemma memset_zero_length: "length (memset_zero xs s n) = length xs"
  by (simp add: memset_zero_def fold_zero_length)

lemma memset_zero_nth:
  "m < length xs \<Longrightarrow>
   memset_zero xs s n ! m = (if s \<le> m \<and> m < s + n then 0 else xs ! m)"
  by (simp add: memset_zero_def fold_zero_nth)

lemma loop_done: "analyse_partitions_loop srv i j True info = Inr (0, info)"
  "analyse_partitions_loop srv 2 j skip info = Inr (0, info)"
  "analyse_partitions_loop srv (Suc (Suc 0)) j skip info = Inr (0, info)"
  by (subst analyse_partitions_loop.simps, simp)+

lemma loop_commit:
  assumes "analyse_partitions_loop srv i j False info = Inr (0, info9)" and "i < 2"
  obtains infoa resa where
    "commit_guess srv info (Some (partitions info ! i)) (result info ! i) = Inr (0, infoa, resa)"
proof -
  from assms obtain r infoa resa where
    c: "commit_guess srv info (Some (partitions info ! i)) (result info ! i) = Inr (r, infoa, resa)"
    by (subst (asm) analyse_partitions_loop.simps) (auto split: sum.splits)
  have "r = 0"
  proof (rule ccontr)
    assume "r \<noteq> 0"
    then have "analyse_partitions_loop srv i j False info
        = Inr (r, infoa\<lparr>result := (result infoa)[i := resa]\<rparr>)"
      using assms(2) by (subst analyse_partitions_loop.simps) (simp add: c)
    with assms(1) \<open>r \<noteq> 0\<close> show False by simp
  qed
  with c that show ?thesis by blast
qed

text \<open>The state after the probe of partition \<open>i\<close> was looked at.\<close>

lemma after_probe_facts:
  assumes "i < 2" "j < 2" "i \<noteq> j" "length (result info2) = 2" "length (possible info2) = 8"
  shows "res_total (result info2 ! i) = 5 \<Longrightarrow>
           fst (after_probe i j info2) \<and>
           res_red (result (snd (after_probe i j info2)) ! j) = 0 \<and>
           res_white (result (snd (after_probe i j info2)) ! j) = 0 \<and>
           res_total (result (snd (after_probe i j info2)) ! j) = 0 \<and>
           (\<forall>k<4. possible (snd (after_probe i j info2)) ! (j * 4 + k) = 0)"
    and "res_total (result info2 ! i) = 0 \<Longrightarrow>
           fst (after_probe i j info2) \<and>
           res_red (result (snd (after_probe i j info2)) ! j) = 1 \<and>
           res_white (result (snd (after_probe i j info2)) ! j) = 0 \<and>
           res_total (result (snd (after_probe i j info2)) ! j) = 5 \<and>
           (\<forall>k<4. possible (snd (after_probe i j info2)) ! (i * 4 + k) = 0)"
    and "res_total (result info2 ! i) \<noteq> 5 \<Longrightarrow> res_total (result info2 ! i) \<noteq> 0 \<Longrightarrow>
           after_probe i j info2 = (False, info2)"
    and "wire (snd (after_probe i j info2)) = wire info2"
    and "partitions (snd (after_probe i j info2)) = partitions info2"
    and "length (result (snd (after_probe i j info2))) = 2"
    and "length (possible (snd (after_probe i j info2))) = 8"
  using assms
  by (auto simp add: after_probe_def memset_zero_nth memset_zero_length)

lemma probe_step:
  assumes c: "commit_guess srv info (Some (partitions info ! i)) (result info ! i) = Inr (0, infoa, resa)"
    and l: "length (result info) = 2" "length (possible info) = 8" and i: "i < 2"
  obtains r where
    "wire infoa = wire info @ [(probe_of (partitions info ! i), r)]"
    "res_total (result (infoa\<lparr>result := (result infoa)[i := resa]\<rparr>) ! i) = TOTAL r"
    "length (result (infoa\<lparr>result := (result infoa)[i := resa]\<rparr>)) = 2"
    "length (possible (infoa\<lparr>result := (result infoa)[i := resa]\<rparr>)) = 8"
    "partitions (infoa\<lparr>result := (result infoa)[i := resa]\<rparr>) = partitions info"
proof -
  from commit_guess_extends(2) [OF c] obtain r where
    t: "traffic info infoa = [(request_buf infoa, r)]"
    and ra: "resa = (result info ! i)\<lparr>res_red := RED r, res_white := WHITE r, res_total := TOTAL r\<rparr>"
    by blast
  from commit_guess_extends(1) [OF c] t
  have w: "wire infoa = wire info @ [(request_buf infoa, r)]"
    by (simp add: extends_def)
  have f: "possible infoa = possible info" "result infoa = result info"
    "partitions infoa = partitions info" "request_buf infoa = probe_of (partitions info ! i)"
    using commit_guess_frame [OF c] by simp_all
  show ?thesis
    by (rule that [of r]) (use w f ra l i in simp_all)
qed

end
